theory Spec2Isabelle
  imports Main
begin

section \<open>The three regular expressions of cdetect.py\<close>

text \<open>
  Header text is a Python 2 byte string, modelled as a \<open>string\<close>. Each compiled pattern
  of the source is written out as the matcher that Python's backtracking engine realises
  for it: a function that tries the pattern at the head of the remaining input, and a scan
  that moves on by one character where the attempt fails.
\<close>

definition startswith :: "string \<Rightarrow> string \<Rightarrow> bool" where
  "startswith s p = (take (length p) s = p)"

definition endswith :: "string \<Rightarrow> string \<Rightarrow> bool" where
  "endswith s p = (length p \<le> length s \<and> drop (length s - length p) s = p)"

definition newline :: char where
  "newline = CHR 0x0A"

definition carriage_return :: char where
  "carriage_return = CHR 0x0D"

text \<open>
  \<open>commentRE\<close>, left alternative \<open>/\*(?:.|[\r\n])*?\*/\<close>: after the opening \<open>/*\<close> the
  lazy repetition accepts any character, so the match ends at the first \<open>*/\<close> that begins
  at or after the third character. \<open>skipToClose\<close> returns what follows that \<open>*/\<close>.
\<close>

fun skipToClose :: "string \<Rightarrow> string option" where
  "skipToClose [] = None"
| "skipToClose [c] = None"
| "skipToClose (c # d # cs) =
     (if c = CHR ''*'' \<and> d = CHR ''/'' then Some cs else skipToClose (d # cs))"

definition blockComment :: "string \<Rightarrow> string option" where
  "blockComment s = (if startswith s ''/*'' then skipToClose (drop 2 s) else None)"

text \<open>
  \<open>commentRE\<close>, right alternative \<open>//.*[\r\n]\<close>: the greedy \<open>.*\<close> runs to the end of the
  line (the dot matches everything but a line feed), and the class \<open>[\r\n]\<close> must then
  consume one more character. That is the line feed ending the line if there is one.
  At the end of the input the engine backtracks, and the only character of the line that
  the class can take is a carriage return: the match then ends at the last one of the
  line, and there is no match without one.
\<close>

fun afterLastCR :: "string \<Rightarrow> string option" where
  "afterLastCR [] = None"
| "afterLastCR (c # cs) =
     (case afterLastCR cs of
        Some r \<Rightarrow> Some r
      | None \<Rightarrow> if c = carriage_return then Some cs else None)"

definition lineComment :: "string \<Rightarrow> string option" where
  "lineComment s =
     (if startswith s ''//'' then
        (let rest = drop 2 s;
             line = takeWhile (\<lambda>c. c \<noteq> newline) rest;
             after = dropWhile (\<lambda>c. c \<noteq> newline) rest
         in case after of
              _ # t \<Rightarrow> Some t
            | [] \<Rightarrow> afterLastCR line)
      else None)"

definition commentRE :: "string \<Rightarrow> string option" where
  "commentRE s =
     (case blockComment s of Some r \<Rightarrow> Some r | None \<Rightarrow> lineComment s)"

lemma skipToClose_shorter: "skipToClose s = Some r \<Longrightarrow> length r < length s"
  by (induction s arbitrary: r rule: skipToClose.induct) (auto split: if_splits)

lemma afterLastCR_shorter: "afterLastCR s = Some r \<Longrightarrow> length r < length s"
  by (induction s arbitrary: r) (fastforce split: option.splits if_splits)+

lemma blockComment_shorter: "blockComment s = Some r \<Longrightarrow> length r < length s"
  by (auto simp: blockComment_def dest!: skipToClose_shorter split: if_splits)

lemma lineComment_shorter: "lineComment s = Some r \<Longrightarrow> length r < length s"
proof -
  assume a: "lineComment s = Some r"
  then have sw: "startswith s ''//''" by (auto simp: lineComment_def split: if_splits)
  let ?rest = "drop 2 s"
  show ?thesis
  proof (cases "dropWhile (\<lambda>c. c \<noteq> newline) ?rest")
    case Nil
    with a sw have "afterLastCR (takeWhile (\<lambda>c. c \<noteq> newline) ?rest) = Some r"
      by (simp add: lineComment_def)
    then have "length r < length (takeWhile (\<lambda>c. c \<noteq> newline) ?rest)"
      by (rule afterLastCR_shorter)
    also have "\<dots> \<le> length ?rest" by (rule length_takeWhile_le)
    finally show ?thesis by simp
  next
    case (Cons x t)
    with a sw have "r = t" by (simp add: lineComment_def)
    moreover have "length (dropWhile (\<lambda>c. c \<noteq> newline) ?rest) \<le> length ?rest"
      by (rule length_dropWhile_le)
    ultimately show ?thesis using Cons by simp
  qed
qed

lemma commentRE_shorter: "commentRE s = Some r \<Longrightarrow> length r < length s"
  by (auto simp: commentRE_def split: option.splits
           dest: blockComment_shorter lineComment_shorter)

text \<open>
  \<open>stripComments\<close> is \<open>re.sub(commentRE, "", input)\<close>: the leftmost match is removed and
  the scan goes on behind it; a character where no match starts is kept.
\<close>

function stripComments :: "string \<Rightarrow> string" where
  "stripComments [] = []"
| "stripComments (c # cs) =
     (case commentRE (c # cs) of
        Some r \<Rightarrow> stripComments r
      | None \<Rightarrow> c # stripComments cs)"
  by pat_completeness auto
termination
  by (relation "measure length") (auto dest: commentRE_shorter)

text \<open>
  \<open>includeRE\<close> is \<open>#include \".*\"\<close>: the literal prefix, then the greedy \<open>.*\<close> gives
  back characters until a double quote follows, so the match ends at the last double
  quote of the line. \<open>uptoLastQuote\<close> splits a line there.
\<close>

fun uptoLastQuote :: "string \<Rightarrow> (string \<times> string) option" where
  "uptoLastQuote [] = None"
| "uptoLastQuote (c # cs) =
     (case uptoLastQuote cs of
        Some (m, r) \<Rightarrow> Some (c # m, r)
      | None \<Rightarrow> if c = CHR 0x22 then Some ([c], cs) else None)"

definition include_prefix :: string where
  "include_prefix = ''#include '' @ [CHR 0x22]"

definition includeRE :: "string \<Rightarrow> (string \<times> string) option" where
  "includeRE s =
     (if startswith s include_prefix then
        (let rest = drop (length include_prefix) s;
             line = takeWhile (\<lambda>c. c \<noteq> newline) rest;
             after = dropWhile (\<lambda>c. c \<noteq> newline) rest
         in case uptoLastQuote line of
              Some (m, r) \<Rightarrow> Some (include_prefix @ m, r @ after)
            | None \<Rightarrow> None)
      else None)"

lemma uptoLastQuote_split: "uptoLastQuote s = Some (m, r) \<Longrightarrow> s = m @ r \<and> m \<noteq> []"
  by (induction s arbitrary: m r) (auto split: option.splits if_splits)

lemma includeRE_shorter: "includeRE s = Some (m, r) \<Longrightarrow> length r < length s"
proof -
  assume a: "includeRE s = Some (m, r)"
  then have sw: "startswith s include_prefix"
    by (auto simp: includeRE_def split: if_splits)
  let ?rest = "drop (length include_prefix) s"
  let ?line = "takeWhile (\<lambda>c. c \<noteq> newline) ?rest"
  let ?after = "dropWhile (\<lambda>c. c \<noteq> newline) ?rest"
  from a sw obtain m' r' where u: "uptoLastQuote ?line = Some (m', r')"
    and r: "r = r' @ ?after"
    by (auto simp: includeRE_def Let_def split: option.splits)
  from u have "?line = m' @ r'" and "m' \<noteq> []" by (auto dest: uptoLastQuote_split)
  then have "length r' < length ?line" by (cases m') auto
  moreover have "length ?line + length ?after = length ?rest"
    by (metis length_append takeWhile_dropWhile_id)
  ultimately show ?thesis using r by simp
qed

text \<open>\<open>re.findall(includeRE, text)\<close>: every match, left to right, never overlapping.\<close>

function findall_includeRE :: "string \<Rightarrow> string list" where
  "findall_includeRE [] = []"
| "findall_includeRE (c # cs) =
     (case includeRE (c # cs) of
        Some (m, r) \<Rightarrow> m # findall_includeRE r
      | None \<Rightarrow> findall_includeRE cs)"
  by pat_completeness auto
termination
  by (relation "measure length") (auto dest: includeRE_shorter)

text \<open>
  \<open>filenameRE\<close> is \<open>[a-zA-z]*\.(hpp|h)\<close>. The class is the union of the ranges \<open>a-z\<close>
  and \<open>A-z\<close> as the source writes them, by character code. The greedy run of class
  characters must be followed by a dot (which is not in the class, so giving characters
  back never helps), and the alternation tries \<open>hpp\<close> before \<open>h\<close>.
\<close>

definition in_name_class :: "char \<Rightarrow> bool" where
  "in_name_class c =
     ((of_char (CHR ''a'') \<le> (of_char c :: nat) \<and> (of_char c :: nat) \<le> of_char (CHR ''z''))
      \<or> (of_char (CHR ''A'') \<le> (of_char c :: nat) \<and> (of_char c :: nat) \<le> of_char (CHR ''z'')))"

definition filenameRE :: "string \<Rightarrow> string option" where
  "filenameRE s =
     (let run = takeWhile in_name_class s;
          rest = dropWhile in_name_class s
      in if startswith rest ''.hpp'' then Some (run @ ''.hpp'')
         else if startswith rest ''.h'' then Some (run @ ''.h'')
         else None)"

text \<open>\<open>re.search(filenameRE, inc)\<close>: the leftmost position where the pattern matches.\<close>

fun search_filenameRE :: "string \<Rightarrow> string option" where
  "search_filenameRE [] = filenameRE []"
| "search_filenameRE (c # cs) =
     (case filenameRE (c # cs) of
        Some m \<Rightarrow> Some m
      | None \<Rightarrow> search_filenameRE cs)"


section \<open>Nodes and the class-level registries\<close>

text \<open>
  A \<open>Node\<close> object lives in an object store and is referred to by its address; the store
  is the list of all objects in allocation order, an address is a position in it. The
  fields \<open>links\<close>, \<open>Node.nodes\<close> and \<open>Node.nodeStack\<close> hold references, so they are lists
  of addresses: two references are the same object exactly when the addresses are equal.
  References of a running Python program always point to an allocated object; \<open>refs_ok\<close>
  below states this for a state.

  \<open>nodeStack\<close> is kept top first: \<open>append\<close> is \<open>#\<close>, \<open>pop()\<close> takes the head.
  \<open>stdout\<close> collects the lines printed to standard output.
\<close>

record node =
  name :: string
  links :: "nat list"
  index :: int
  lowlink :: int

record state =
  heap :: "node list"
  nodes :: "nat list"
  nodeStack :: "nat list"
  indexCount :: int
  cyclesDetected :: bool
  stdout :: "string list"

datatype error = IOError | AttributeError | IndexError

definition initial_state :: state where
  "initial_state =
     \<lparr>heap = [], nodes = [], nodeStack = [], indexCount = 0,
      cyclesDetected = False, stdout = []\<rparr>"

definition Node :: "string \<Rightarrow> node" where
  "Node n = \<lparr>name = n, links = [], index = -1, lowlink = 0\<rparr>"

text \<open>\<open>Node.inNodes\<close>: the first registered node with the given name, \<open>None\<close> for \<open>False\<close>.\<close>

definition inNodes :: "string \<Rightarrow> state \<Rightarrow> nat option" where
  "inNodes n s = find (\<lambda>a. n = name (heap s ! a)) (nodes s)"

text \<open>\<open>Node(n)\<close> followed by \<open>Node.nodes.append\<close>: the new object's address and the new state.\<close>

definition new_node :: "string \<Rightarrow> state \<Rightarrow> nat \<times> state" where
  "new_node n s =
     (length (heap s), s\<lparr>heap := heap s @ [Node n], nodes := nodes s @ [length (heap s)]\<rparr>)"

definition append_link :: "nat \<Rightarrow> nat \<Rightarrow> state \<Rightarrow> state" where
  "append_link self target s =
     s\<lparr>heap := (heap s)[self := (heap s ! self)\<lparr>links := links (heap s ! self) @ [target]\<rparr>]\<rparr>"

definition addLink :: "nat \<Rightarrow> string \<Rightarrow> state \<Rightarrow> state" where
  "addLink self n s =
     (case inNodes n s of
        Some test \<Rightarrow> append_link self test s
      | None \<Rightarrow> (let (newNode, s1) = new_node n s in append_link self newNode s1))"

definition isValidFile :: "string \<Rightarrow> bool" where
  "isValidFile file = (endswith file ''.h'' \<or> endswith file ''.hpp'')"

section \<open>Graph construction\<close>

text \<open>
  The target directory is its listing in the order \<open>os.listdir\<close> returns it: each entry
  is a name with the text that \<open>open\<close> and \<open>read\<close> deliver, or \<open>None\<close> where \<open>open\<close>
  raises. The inner loop of \<open>constructGraph\<close> is \<open>addLinks\<close>: \<open>re.search\<close> returns
  \<open>None\<close> where the filename pattern matches nowhere in the directive, and \<open>.group()\<close> on
  it raises \<open>AttributeError\<close>.
\<close>

type_synonym directory = "(string \<times> string option) list"

fun addLinks :: "nat \<Rightarrow> string list \<Rightarrow> state \<Rightarrow> error + state" where
  "addLinks self [] s = Inr s"
| "addLinks self (inc # incs) s =
     (case search_filenameRE inc of
        None \<Rightarrow> Inl AttributeError
      | Some n \<Rightarrow> addLinks self incs (addLink self n s))"

definition scanFile :: "string \<Rightarrow> string \<Rightarrow> state \<Rightarrow> error + state" where
  "scanFile filename input s =
     (let (node, s1) = (case inNodes filename s of
                          Some a \<Rightarrow> (a, s)
                        | None \<Rightarrow> new_node filename s)
      in addLinks node (findall_includeRE (stripComments input)) s1)"

fun constructGraph :: "directory \<Rightarrow> state \<Rightarrow> error + state" where
  "constructGraph [] s = Inr s"
| "constructGraph ((filename, content) # rest) s =
     (if isValidFile filename then
        (case content of
           None \<Rightarrow> Inl IOError
         | Some input \<Rightarrow>
             (case scanFile filename input s of
                Inl e \<Rightarrow> Inl e
              | Inr s1 \<Rightarrow> constructGraph rest s1))
      else constructGraph rest s)"

section \<open>Tarjan's algorithm as the source runs it\<close>

text \<open>The first four statements of \<open>tarjan\<close>.\<close>

definition enter :: "nat \<Rightarrow> state \<Rightarrow> state" where
  "enter n s =
     s\<lparr>heap := (heap s)[n := (heap s ! n)\<lparr>index := indexCount s, lowlink := indexCount s\<rparr>],
       indexCount := indexCount s + 1,
       nodeStack := n # nodeStack s\<rparr>"

definition set_lowlink :: "nat \<Rightarrow> int \<Rightarrow> state \<Rightarrow> state" where
  "set_lowlink n v s = s\<lparr>heap := (heap s)[n := (heap s ! n)\<lparr>lowlink := v\<rparr>]\<rparr>"

text \<open>
  One iteration of the loop over \<open>n.links\<close>; \<open>call\<close> is the recursive call. \<open>None\<close> is a
  call that has not returned, \<open>Some (Inl e)\<close> one that raised.
\<close>

definition visit_child ::
  "(nat \<Rightarrow> state \<Rightarrow> (error + state) option) \<Rightarrow> nat \<Rightarrow> nat \<Rightarrow> state \<Rightarrow> (error + state) option"
where
  "visit_child call n child s =
     (if index (heap s ! child) = -1 then
        (case call child s of
           None \<Rightarrow> None
         | Some (Inl e) \<Rightarrow> Some (Inl e)
         | Some (Inr s1) \<Rightarrow>
             Some (Inr (set_lowlink n
               (min (lowlink (heap s1 ! n)) (lowlink (heap s1 ! child))) s1)))
      else if child \<in> set (nodeStack s) then
        Some (Inr (set_lowlink n (min (lowlink (heap s ! n)) (index (heap s ! child))) s))
      else Some (Inr s))"

fun visit_children ::
  "(nat \<Rightarrow> state \<Rightarrow> (error + state) option) \<Rightarrow> nat \<Rightarrow> nat list \<Rightarrow> state
     \<Rightarrow> (error + state) option"
where
  "visit_children call n [] s = Some (Inr s)"
| "visit_children call n (child # cs) s =
     (case visit_child call n child s of
        None \<Rightarrow> None
      | Some (Inl e) \<Rightarrow> Some (Inl e)
      | Some (Inr s1) \<Rightarrow> visit_children call n cs s1)"

text \<open>
  The pops of lines 156 to 159: nodes are taken off the stack until \<open>n\<close> has been taken.
  The result is the list \<open>cycle\<close> and the remaining stack; \<open>pop()\<close> on the empty list
  raises \<open>IndexError\<close>, which is \<open>None\<close> here.
\<close>

fun pop_cycle :: "nat \<Rightarrow> nat list \<Rightarrow> (nat list \<times> nat list) option" where
  "pop_cycle n [] = None"
| "pop_cycle n (x # st) =
     (if x = n then Some ([x], st)
      else (case pop_cycle n st of
              None \<Rightarrow> None
            | Some (cycle, rest) \<Rightarrow> Some (x # cycle, rest)))"

text \<open>
  The line printed for a cycle: each name followed by \<open><-\<close>, the items separated by the
  single space that Python 2's \<open>print\<close> with a trailing comma puts between them, and the
  name of \<open>cycle[0]\<close> once more.
\<close>

definition chain :: "string list \<Rightarrow> string" where
  "chain names = concat (map (\<lambda>x. x @ '' <- '') names) @ hd names"

definition report :: "nat list \<Rightarrow> state \<Rightarrow> state" where
  "report cycle s =
     s\<lparr>stdout := stdout s @
          [''Cyclic dependency detected:'', chain (map (\<lambda>a. name (heap s ! a)) cycle)],
       cyclesDetected := True\<rparr>"

definition finish :: "nat \<Rightarrow> state \<Rightarrow> error + state" where
  "finish n s =
     (if lowlink (heap s ! n) = index (heap s ! n) then
        (case pop_cycle n (nodeStack s) of
           None \<Rightarrow> Inl IndexError
         | Some (cycle, rest) \<Rightarrow>
             (let s1 = s\<lparr>nodeStack := rest\<rparr>
              in if length cycle > 1 then Inr (report cycle s1) else Inr s1))
      else Inr s)"

text \<open>
  \<open>tarjan\<close> recurses into nodes that the run has not indexed yet, which is not a
  structural descent; the first argument bounds the depth of the recursion, and \<open>None\<close>
  says that the bound was reached. That a bound exists for which the call returns is
  proved below. The interpreter's own recursion limit is not part of the model.
\<close>

primrec tarjan :: "nat \<Rightarrow> nat \<Rightarrow> state \<Rightarrow> (error + state) option" where
  "tarjan 0 = (\<lambda>n s. None)"
| "tarjan (Suc fuel) = (\<lambda>n s.
     (let s1 = enter n s
      in case visit_children (tarjan fuel) n (links (heap s1 ! n)) s1 of
           None \<Rightarrow> None
         | Some (Inl e) \<Rightarrow> Some (Inl e)
         | Some (Inr s2) \<Rightarrow> Some (finish n s2)))"

text \<open>
  The loop of \<open>main\<close> over \<open>Node.nodes\<close>; \<open>analyse\<close>, the part of \<open>main\<close> that follows
  graph construction (the loop and the summary line); and \<open>main\<close> from
  \<open>constructGraph\<close> on.
\<close>

fun tarjan_all :: "nat \<Rightarrow> nat list \<Rightarrow> state \<Rightarrow> (error + state) option" where
  "tarjan_all fuel [] s = Some (Inr s)"
| "tarjan_all fuel (n # ns) s =
     (case tarjan fuel n s of
        None \<Rightarrow> None
      | Some (Inl e) \<Rightarrow> Some (Inl e)
      | Some (Inr s1) \<Rightarrow> tarjan_all fuel ns s1)"

definition summary :: "state \<Rightarrow> state" where
  "summary s =
     (if \<not> cyclesDetected s then s\<lparr>stdout := stdout s @ [''No cyclic dependencies detected.'']\<rparr>
      else s)"

definition analyse :: "nat \<Rightarrow> state \<Rightarrow> (error + state) option" where
  "analyse fuel s =
     (case tarjan_all fuel (nodes s) s of
        None \<Rightarrow> None
      | Some (Inl e) \<Rightarrow> Some (Inl e)
      | Some (Inr s1) \<Rightarrow> Some (Inr (summary s1)))"

definition main :: "nat \<Rightarrow> directory \<Rightarrow> (error + state) option" where
  "main fuel target =
     (case constructGraph target initial_state of
        Inl e \<Rightarrow> Some (Inl e)
      | Inr s \<Rightarrow> analyse fuel s)"

section \<open>Properties stated about a state\<close>

text \<open>
  \<open>registry_ok\<close>: no two registered nodes have the same name, every registered reference
  points to an allocated object, and every link of every object is a registered node.
\<close>

definition registry_ok :: "state \<Rightarrow> bool" where
  "registry_ok s \<longleftrightarrow>
     distinct (map (\<lambda>a. name (heap s ! a)) (nodes s)) \<and>
     (\<forall>a \<in> set (nodes s). a < length (heap s)) \<and>
     (\<forall>nd \<in> set (heap s). \<forall>t \<in> set (links nd). t \<in> set (nodes s))"

text \<open>A node named \<open>t\<close> is registered; every registered node named \<open>t\<close> has no links.\<close>

definition has_node :: "string \<Rightarrow> state \<Rightarrow> bool" where
  "has_node t s \<longleftrightarrow> (\<exists>a \<in> set (nodes s). name (heap s ! a) = t)"

definition leaf :: "string \<Rightarrow> state \<Rightarrow> bool" where
  "leaf t s \<longleftrightarrow> (\<forall>a \<in> set (nodes s). name (heap s ! a) = t \<longrightarrow> links (heap s ! a) = [])"

text \<open>Header text for concrete inputs: the double quote, and one include directive.\<close>

definition dquote :: char where
  "dquote = CHR 0x22"

definition include_directive :: "string \<Rightarrow> string" where
  "include_directive f = ''#include '' @ [dquote] @ f @ [dquote]"

text \<open>A state of two registered headers, the first including the second.\<close>

definition two_headers :: state where
  "two_headers =
     \<lparr>heap = [\<lparr>name = ''a.h'', links = [1], index = -1, lowlink = 0\<rparr>,
              \<lparr>name = ''b.h'', links = [], index = -1, lowlink = 0\<rparr>],
      nodes = [0, 1], nodeStack = [], indexCount = 0, cyclesDetected = False, stdout = []\<rparr>"

text \<open>
  States for concrete inputs: one header that includes itself; the two headers after the
  first iteration of the loop of \<open>main\<close>; and the two headers at the moment the traversal
  from the first one has pushed it.
\<close>

definition self_include :: state where
  "self_include =
     \<lparr>heap = [\<lparr>name = ''a.hpp'', links = [0], index = -1, lowlink = 0\<rparr>],
      nodes = [0], nodeStack = [], indexCount = 0, cyclesDetected = False, stdout = []\<rparr>"

definition after_first_root :: state where
  "after_first_root =
     \<lparr>heap = [\<lparr>name = ''a.h'', links = [1], index = 0, lowlink = 0\<rparr>,
              \<lparr>name = ''b.h'', links = [], index = 1, lowlink = 1\<rparr>],
      nodes = [0, 1], nodeStack = [], indexCount = 2, cyclesDetected = False, stdout = []\<rparr>"

definition stack_example :: state where
  "stack_example =
     \<lparr>heap = [\<lparr>name = ''a.h'', links = [1], index = 0, lowlink = 0\<rparr>,
              \<lparr>name = ''b.h'', links = [], index = -1, lowlink = 0\<rparr>],
      nodes = [0, 1], nodeStack = [0], indexCount = 1, cyclesDetected = False, stdout = []\<rparr>"

section \<open>Properties stated about a run of the algorithm\<close>

text \<open>Short names for the fields of the node at an address.\<close>

abbreviation idx :: "state \<Rightarrow> nat \<Rightarrow> int" where
  "idx s a \<equiv> index (heap s ! a)"

abbreviation low :: "state \<Rightarrow> nat \<Rightarrow> int" where
  "low s a \<equiv> lowlink (heap s ! a)"

abbreviation lnk :: "state \<Rightarrow> nat \<Rightarrow> nat list" where
  "lnk s a \<equiv> links (heap s ! a)"

text \<open>
  \<open>unstarted\<close>: the state in which \<open>constructGraph\<close> leaves the registries, before the
  first call of \<open>tarjan\<close>. \<open>graph_ok\<close>: every link points to an allocated node.
  \<open>tarjan_inv\<close>: the counter is not negative, so that an assigned index differs from the
  sentinel \<open>-1\<close>; the links are valid; every node on the stack is allocated and has an
  assigned index; every index is below the counter.
\<close>

definition unstarted :: "state \<Rightarrow> bool" where
  "unstarted s \<longleftrightarrow>
     (\<forall>nd \<in> set (heap s). index nd = -1) \<and> nodeStack s = [] \<and> indexCount s = 0 \<and>
     stdout s = [] \<and> \<not> cyclesDetected s"

definition graph_ok :: "state \<Rightarrow> bool" where
  "graph_ok s \<longleftrightarrow> (\<forall>nd \<in> set (heap s). \<forall>t \<in> set (links nd). t < length (heap s))"

definition tarjan_inv :: "state \<Rightarrow> bool" where
  "tarjan_inv s \<longleftrightarrow>
     0 \<le> indexCount s \<and> graph_ok s \<and>
     (\<forall>a \<in> set (nodeStack s). a < length (heap s) \<and> index (heap s ! a) \<noteq> -1) \<and>
     (\<forall>nd \<in> set (heap s). index nd < indexCount s)"

text \<open>
  Between two calls of the loop of \<open>main\<close>: the stack is empty, and every link of a
  visited node leads to a visited node. \<open>reindexed\<close> is the state after a top-level call
  on a node that is already visited.
\<close>

definition closed_visited :: "state \<Rightarrow> bool" where
  "closed_visited s \<longleftrightarrow>
     (\<forall>nd \<in> set (heap s). index nd \<noteq> -1 \<longrightarrow> (\<forall>c \<in> set (links nd). index (heap s ! c) \<noteq> -1))"

definition top_inv :: "state \<Rightarrow> bool" where
  "top_inv s \<longleftrightarrow> tarjan_inv s \<and> nodeStack s = [] \<and> closed_visited s"

definition reindexed :: "nat \<Rightarrow> state \<Rightarrow> state" where
  "reindexed n s =
     s\<lparr>heap := (heap s)[n := (heap s ! n)\<lparr>index := indexCount s, lowlink := indexCount s\<rparr>],
       indexCount := indexCount s + 1\<rparr>"

text \<open>The include graph of a state: an edge for every link of every allocated node.\<close>

definition edge_list :: "state \<Rightarrow> (nat \<times> nat) list" where
  "edge_list s = concat (map (\<lambda>a. map (\<lambda>b. (a, b)) (links (heap s ! a))) [0..<length (heap s)])"

definition edges :: "state \<Rightarrow> (nat \<times> nat) set" where
  "edges s = set (edge_list s)"

text \<open>
  What one call of \<open>tarjan\<close> on node \<open>n\<close> does, from the state \<open>s\<close> in which it starts:
  \<open>call_pre\<close> is what holds at the start, \<open>loop_basic\<close> relates \<open>s\<close> to a state \<open>cur\<close>
  inside the loop over \<open>n.links\<close> after the children \<open>seen\<close>, \<open>call_post\<close> relates \<open>s\<close> to
  the state at return. They say: the graph is unchanged; the counter has grown; output
  is only added; \<open>n\<close> has the counter's old value as its index and a lowlink that is not
  above it; no other visited node has changed; a node visited meanwhile has an index at
  or above the old counter; the stack has grown by \<open>n\<close> and by nodes visited meanwhile,
  or, at return, is as it was when \<open>n\<close> is a root; the lowlink of \<open>n\<close> is not below any
  bound on the old counter and the old stack's indices; and the links of every node
  visited meanwhile lead to visited nodes.
\<close>

definition same_graph :: "state \<Rightarrow> state \<Rightarrow> bool" where
  "same_graph s s' \<longleftrightarrow>
     length (heap s') = length (heap s) \<and> nodes s' = nodes s \<and>
     (\<forall>a. lnk s' a = lnk s a \<and> name (heap s' ! a) = name (heap s ! a))"

definition call_pre :: "nat \<Rightarrow> state \<Rightarrow> bool" where
  "call_pre n s \<longleftrightarrow> tarjan_inv s \<and> n < length (heap s)"

definition loop_basic :: "nat \<Rightarrow> state \<Rightarrow> nat list \<Rightarrow> state \<Rightarrow> bool" where
  "loop_basic n s seen cur \<longleftrightarrow>
     tarjan_inv cur \<and> same_graph s cur \<and>
     indexCount s < indexCount cur \<and>
     (\<exists>extra. stdout cur = stdout s @ extra) \<and>
     (cyclesDetected s \<longrightarrow> cyclesDetected cur) \<and>
     idx cur n = indexCount s \<and> low cur n \<le> indexCount s \<and>
     (\<forall>a < length (heap s). a \<noteq> n \<and> idx s a \<noteq> -1 \<longrightarrow> idx cur a = idx s a \<and> low cur a = low s a) \<and>
     (\<forall>a < length (heap s). idx s a \<noteq> -1 \<longrightarrow> idx cur a \<noteq> -1) \<and>
     (\<forall>a < length (heap s). idx s a = -1 \<and> idx cur a \<noteq> -1 \<longrightarrow> indexCount s \<le> idx cur a) \<and>
     (\<exists>new. nodeStack cur = new @ n # nodeStack s \<and> (\<forall>x \<in> set new. idx s x = -1 \<and> x \<noteq> n)) \<and>
     (\<forall>b. b \<le> indexCount s \<and> (\<forall>x \<in> set (nodeStack s). b \<le> idx s x) \<longrightarrow> b \<le> low cur n) \<and>
     (\<forall>c \<in> set seen. c < length (heap s) \<and> idx cur c \<noteq> -1) \<and>
     (\<forall>a < length (heap s). a \<noteq> n \<and> idx s a = -1 \<and> idx cur a \<noteq> -1
          \<longrightarrow> (\<forall>c \<in> set (lnk s a). idx cur c \<noteq> -1))"

definition call_post :: "nat \<Rightarrow> state \<Rightarrow> state \<Rightarrow> bool" where
  "call_post n s s' \<longleftrightarrow>
     tarjan_inv s' \<and> same_graph s s' \<and>
     indexCount s < indexCount s' \<and>
     (\<exists>extra. stdout s' = stdout s @ extra) \<and>
     (cyclesDetected s \<longrightarrow> cyclesDetected s') \<and>
     idx s' n = indexCount s \<and> low s' n \<le> indexCount s \<and>
     (\<forall>a < length (heap s). a \<noteq> n \<and> idx s a \<noteq> -1 \<longrightarrow> idx s' a = idx s a \<and> low s' a = low s a) \<and>
     (\<forall>a < length (heap s). idx s a \<noteq> -1 \<longrightarrow> idx s' a \<noteq> -1) \<and>
     (\<forall>a < length (heap s). idx s a = -1 \<and> idx s' a \<noteq> -1 \<longrightarrow> indexCount s \<le> idx s' a) \<and>
     ((low s' n = idx s' n \<and> nodeStack s' = nodeStack s) \<or>
      (low s' n \<noteq> idx s' n \<and>
       (\<exists>new. nodeStack s' = new @ n # nodeStack s \<and> (\<forall>x \<in> set new. idx s x = -1 \<and> x \<noteq> n)))) \<and>
     (\<forall>b. b \<le> indexCount s \<and> (\<forall>x \<in> set (nodeStack s). b \<le> idx s x) \<longrightarrow> b \<le> low s' n) \<and>
     (\<forall>a < length (heap s). (a = n \<or> idx s a = -1) \<and> idx s' a \<noteq> -1
          \<longrightarrow> (\<forall>c \<in> set (lnk s a). idx s' c \<noteq> -1))"

text \<open>The allocated nodes that have no index yet: what bounds the depth of the recursion.\<close>

definition unvisited :: "state \<Rightarrow> nat set" where
  "unvisited s = {a. a < length (heap s) \<and> idx s a = -1}"

text \<open>
  \<open>no_cycle_ahead\<close>: from \<open>n\<close> no node of the stack can be reached, and every unvisited
  node that can be reached lies on no cycle through another node. A call that starts so
  (\<open>D_pre\<close>) keeps the stack and the output as they were inside its loop, but for \<open>n\<close> on
  the stack (\<open>D_inv\<close>), and returns with both as they were (\<open>D_post\<close>).
\<close>

definition no_cycle_ahead :: "nat \<Rightarrow> state \<Rightarrow> bool" where
  "no_cycle_ahead n s \<longleftrightarrow>
     (\<forall>x. (n, x) \<in> (edges s)\<^sup>* \<longrightarrow> x \<notin> set (nodeStack s)) \<and>
     (\<forall>x y. (n, x) \<in> (edges s)\<^sup>* \<and> idx s x = -1 \<and> (x, y) \<in> (edges s)\<^sup>* \<and> (y, x) \<in> (edges s)\<^sup>*
        \<longrightarrow> x = y)"

definition D_pre :: "nat \<Rightarrow> state \<Rightarrow> bool" where
  "D_pre n s \<longleftrightarrow> call_pre n s \<and> idx s n = -1 \<and> no_cycle_ahead n s"

definition D_inv :: "nat \<Rightarrow> state \<Rightarrow> nat list \<Rightarrow> state \<Rightarrow> bool" where
  "D_inv n s seen cur \<longleftrightarrow>
     loop_basic n s seen cur \<and> nodeStack cur = n # nodeStack s \<and> stdout cur = stdout s \<and>
     cyclesDetected cur = cyclesDetected s \<and> low cur n = indexCount s"

definition D_post :: "nat \<Rightarrow> state \<Rightarrow> state \<Rightarrow> bool" where
  "D_post n s s' \<longleftrightarrow>
     nodeStack s' = nodeStack s \<and> stdout s' = stdout s \<and>
     cyclesDetected s' = cyclesDetected s \<and> low s' n = idx s' n"

text \<open>
  Relations between the states before and after some calls of the loop of \<open>main\<close>:
  \<open>quiet\<close>, nothing was printed; \<open>progressed\<close>, the counter and the indices have not
  decreased.
\<close>

definition quiet :: "state \<Rightarrow> state \<Rightarrow> bool" where
  "quiet s s' \<longleftrightarrow>
     top_inv s' \<and> same_graph s s' \<and> stdout s' = stdout s \<and> cyclesDetected s' = cyclesDetected s"

definition progressed :: "state \<Rightarrow> state \<Rightarrow> bool" where
  "progressed s s' \<longleftrightarrow>
     top_inv s' \<and> length (heap s') = length (heap s) \<and> indexCount s \<le> indexCount s' \<and>
     (\<forall>a < length (heap s). idx s a \<le> idx s' a)"

section \<open>Graph construction keeps the registry consistent\<close>

lemma inNodes_Some: "inNodes n s = Some a \<Longrightarrow> a \<in> set (nodes s) \<and> name (heap s ! a) = n"
  by (auto simp: inNodes_def find_Some_iff)

lemma inNodes_None: "inNodes n s = None \<Longrightarrow> a \<in> set (nodes s) \<Longrightarrow> name (heap s ! a) \<noteq> n"
  by (auto simp: inNodes_def find_None_iff)

lemma name_append_link [simp]: "name (heap (append_link self t s) ! a) = name (heap s ! a)"
  by (cases "self < length (heap s)"; cases "a = self")
     (simp_all add: append_link_def list_update_beyond)

lemma nodes_append_link [simp]: "nodes (append_link self t s) = nodes s"
  by (simp add: append_link_def)

lemma length_heap_append_link [simp]: "length (heap (append_link self t s)) = length (heap s)"
  by (simp add: append_link_def)

lemma links_append_link:
  "links (heap (append_link self t s) ! a) =
     (if a = self \<and> self < length (heap s) then links (heap s ! a) @ [t] else links (heap s ! a))"
  by (cases "self < length (heap s)"; cases "a = self")
     (simp_all add: append_link_def list_update_beyond)

lemma registry_ok_append_link:
  assumes "registry_ok s" and "t \<in> set (nodes s)"
  shows "registry_ok (append_link self t s)"
proof -
  have "\<forall>nd \<in> set (heap (append_link self t s)). \<forall>x \<in> set (links nd). x \<in> set (nodes s)"
  proof
    fix nd assume "nd \<in> set (heap (append_link self t s))"
    then obtain a where a: "a < length (heap s)" and nd: "nd = heap (append_link self t s) ! a"
      by (auto simp: in_set_conv_nth)
    from a have "heap s ! a \<in> set (heap s)" by simp
    with assms have "\<forall>x \<in> set (links (heap s ! a)). x \<in> set (nodes s)"
      by (simp add: registry_ok_def)
    with assms(2) nd show "\<forall>x \<in> set (links nd). x \<in> set (nodes s)"
      by (auto simp: links_append_link)
  qed
  with assms(1) show ?thesis by (simp add: registry_ok_def)
qed

lemma new_node_props:
  "fst (new_node n s) = length (heap s)"
  "nodes (snd (new_node n s)) = nodes s @ [length (heap s)]"
  "heap (snd (new_node n s)) = heap s @ [Node n]"
  by (simp_all add: new_node_def)

lemma registry_ok_new_node:
  assumes "registry_ok s" and "inNodes n s = None"
  shows "registry_ok (snd (new_node n s))"
proof -
  have valid: "\<forall>a \<in> set (nodes s). a < length (heap s)" using assms(1) by (simp add: registry_ok_def)
  then have eq: "map (\<lambda>a. name ((heap s @ [Node n]) ! a)) (nodes s) = map (\<lambda>a. name (heap s ! a)) (nodes s)"
    by (simp add: nth_append)
  have fresh: "n \<notin> set (map (\<lambda>a. name (heap s ! a)) (nodes s))"
    using inNodes_None [OF assms(2)] by auto
  have m: "map (\<lambda>a. name ((heap s @ [Node n]) ! a)) (nodes s @ [length (heap s)])
          = map (\<lambda>a. name (heap s ! a)) (nodes s) @ [n]"
    using eq by (simp add: Node_def)
  have "distinct (map (\<lambda>a. name (heap s ! a)) (nodes s) @ [n])"
    using assms(1) fresh by (simp add: registry_ok_def)
  then have "distinct (map (\<lambda>a. name ((heap s @ [Node n]) ! a)) (nodes s @ [length (heap s)]))"
    by (simp only: m)
  moreover have "\<forall>a \<in> set (nodes s @ [length (heap s)]). a < length (heap s @ [Node n])"
    using valid by auto
  moreover have "\<forall>nd \<in> set (heap s @ [Node n]). \<forall>t \<in> set (links nd). t \<in> set (nodes s @ [length (heap s)])"
    using assms(1) by (auto simp: registry_ok_def Node_def)
  ultimately show ?thesis by (simp add: registry_ok_def new_node_props)
qed

lemma registry_ok_addLink:
  assumes "registry_ok s"
  shows "registry_ok (addLink self n s)"
proof (cases "inNodes n s")
  case None
  have "registry_ok (snd (new_node n s))" using assms None by (rule registry_ok_new_node)
  moreover have "fst (new_node n s) \<in> set (nodes (snd (new_node n s)))"
    by (simp add: new_node_props)
  ultimately have "registry_ok (append_link self (fst (new_node n s)) (snd (new_node n s)))"
    by (rule registry_ok_append_link)
  with None show ?thesis by (simp add: addLink_def split_beta)
next
  case (Some a)
  then have "a \<in> set (nodes s)" by (simp add: inNodes_Some)
  with assms have "registry_ok (append_link self a s)" by (rule registry_ok_append_link)
  with Some show ?thesis by (simp add: addLink_def)
qed

lemma registry_ok_addLinks:
  "registry_ok s \<Longrightarrow> addLinks self incs s = Inr s' \<Longrightarrow> registry_ok s'"
  by (induction incs arbitrary: s) (auto split: option.splits dest: registry_ok_addLink)

lemma registry_ok_scanFile:
  assumes "registry_ok s" and "scanFile filename input s = Inr s'"
  shows "registry_ok s'"
proof (cases "inNodes filename s")
  case None
  with assms(2) have "addLinks (fst (new_node filename s)) (findall_includeRE (stripComments input)) (snd (new_node filename s)) = Inr s'"
    by (simp add: scanFile_def split_beta)
  moreover have "registry_ok (snd (new_node filename s))" using assms(1) None by (rule registry_ok_new_node)
  ultimately show ?thesis by (rule registry_ok_addLinks[rotated])
next
  case (Some a)
  with assms(2) have "addLinks a (findall_includeRE (stripComments input)) s = Inr s'"
    by (simp add: scanFile_def)
  with assms(1) show ?thesis by (rule registry_ok_addLinks)
qed

lemma registry_ok_constructGraph:
  "registry_ok s \<Longrightarrow> constructGraph target s = Inr s' \<Longrightarrow> registry_ok s'"
proof (induction target arbitrary: s)
  case Nil
  then show ?case by simp
next
  case (Cons e rest)
  obtain filename content where e: "e = (filename, content)" by (cases e)
  show ?case
  proof (cases "isValidFile filename")
    case False
    with Cons e show ?thesis by simp
  next
    case True
    with Cons.prems e obtain input s1 where "content = Some input"
      and s1: "scanFile filename input s = Inr s1" and rest: "constructGraph rest s1 = Inr s'"
      by (auto split: option.splits sum.splits)
    from Cons.prems(1) s1 have "registry_ok s1" by (rule registry_ok_scanFile)
    then show ?thesis using rest by (rule Cons.IH)
  qed
qed

lemma registry_ok_initial: "registry_ok initial_state"
  by (simp add: registry_ok_def initial_state_def)




lemma registry_ok_valid: "registry_ok s \<Longrightarrow> a \<in> set (nodes s) \<Longrightarrow> a < length (heap s)"
  by (simp add: registry_ok_def)

lemma addLink_cases:
  obtains (known) a where "inNodes n s = Some a" "addLink self n s = append_link self a s"
  | (fresh) "inNodes n s = None"
      "addLink self n s = append_link self (length (heap s)) (snd (new_node n s))"
  by (cases "inNodes n s") (auto simp: addLink_def new_node_def)

lemma nodes_addLink: "set (nodes s) \<subseteq> set (nodes (addLink self n s))"
  by (cases rule: addLink_cases [where n = n and s = s and self = self]) (auto simp: new_node_props)

lemma name_addLink:
  "a < length (heap s) \<Longrightarrow> name (heap (addLink self n s) ! a) = name (heap s ! a)"
  by (cases rule: addLink_cases [where n = n and s = s and self = self]) (auto simp: new_node_props nth_append)

lemma has_node_addLink_target:
  assumes "registry_ok s"
  shows "has_node n (addLink self n s)"
proof (cases rule: addLink_cases [where n = n and s = s and self = self])
  case (known a)
  then show ?thesis using inNodes_Some [of n s a] by (auto simp: has_node_def)
next
  case fresh
  then show ?thesis by (auto simp: has_node_def new_node_props Node_def)
qed

lemma has_node_addLink:
  assumes "registry_ok s" and "has_node t s"
  shows "has_node t (addLink self n s)"
proof -
  from assms(2) obtain a where a: "a \<in> set (nodes s)" "name (heap s ! a) = t"
    by (auto simp: has_node_def)
  then have "a < length (heap s)" using assms(1) by (simp add: registry_ok_valid)
  then have "name (heap (addLink self n s) ! a) = t" using a by (simp add: name_addLink)
  moreover have "a \<in> set (nodes (addLink self n s))" using a nodes_addLink by blast
  ultimately show ?thesis by (auto simp: has_node_def)
qed

lemma has_node_addLinks:
  "registry_ok s \<Longrightarrow> has_node t s \<Longrightarrow> addLinks self incs s = Inr s' \<Longrightarrow> has_node t s'"
proof (induction incs arbitrary: s)
  case Nil
  then show ?case by simp
next
  case (Cons inc incs)
  from Cons.prems(3) obtain n where n: "search_filenameRE inc = Some n"
    and r: "addLinks self incs (addLink self n s) = Inr s'"
    by (auto split: option.splits)
  have "registry_ok (addLink self n s)" using Cons.prems(1) by (rule registry_ok_addLink)
  moreover have "has_node t (addLink self n s)" using Cons.prems(1,2) by (rule has_node_addLink)
  ultimately show ?case using r by (rule Cons.IH)
qed

lemma has_node_addLinks_target:
  "registry_ok s \<Longrightarrow> addLinks self incs s = Inr s' \<Longrightarrow> inc \<in> set incs
     \<Longrightarrow> search_filenameRE inc = Some t \<Longrightarrow> has_node t s'"
proof (induction incs arbitrary: s)
  case Nil
  then show ?case by simp
next
  case (Cons i incs)
  from Cons.prems(2) obtain n where n: "search_filenameRE i = Some n"
    and r: "addLinks self incs (addLink self n s) = Inr s'"
    by (auto split: option.splits)
  have ok: "registry_ok (addLink self n s)" using Cons.prems(1) by (rule registry_ok_addLink)
  show ?case
  proof (cases "inc = i")
    case True
    with n Cons.prems(4) have "n = t" by simp
    then have "has_node t (addLink self n s)"
      using has_node_addLink_target [OF Cons.prems(1)] by simp
    with ok show ?thesis using r by (rule has_node_addLinks)
  next
    case False
    with Cons.prems(3) have "inc \<in> set incs" by simp
    with ok r show ?thesis using Cons.prems(4) by (rule Cons.IH)
  qed
qed

lemma scanFile_cases:
  obtains (known) a where "inNodes filename s = Some a"
      "scanFile filename input s = addLinks a (findall_includeRE (stripComments input)) s"
  | (fresh) "inNodes filename s = None"
      "scanFile filename input s =
         addLinks (length (heap s)) (findall_includeRE (stripComments input))
           (snd (new_node filename s))"
  by (cases "inNodes filename s") (auto simp: scanFile_def new_node_def)

lemma has_node_new_node:
  assumes "registry_ok s" and "has_node t s"
  shows "has_node t (snd (new_node n s))"
proof -
  from assms(2) obtain a where a: "a \<in> set (nodes s)" "name (heap s ! a) = t"
    by (auto simp: has_node_def)
  then have "a < length (heap s)" using assms(1) by (simp add: registry_ok_valid)
  with a show ?thesis by (auto simp: has_node_def new_node_props nth_append)
qed

lemma has_node_scanFile:
  assumes "registry_ok s" and "has_node t s" and "scanFile filename input s = Inr s'"
  shows "has_node t s'"
proof (cases rule: scanFile_cases [where filename = filename and s = s and input = input])
  case (known a)
  with assms show ?thesis by (auto intro: has_node_addLinks)
next
  case fresh
  have "registry_ok (snd (new_node filename s))"
    using assms(1) fresh(1) by (rule registry_ok_new_node)
  moreover have "has_node t (snd (new_node filename s))"
    using assms(1,2) by (rule has_node_new_node)
  ultimately show ?thesis using assms(3) fresh(2) by (auto intro: has_node_addLinks)
qed

lemma has_node_scanFile_target:
  assumes "registry_ok s" and "scanFile filename input s = Inr s'"
    and "inc \<in> set (findall_includeRE (stripComments input))"
    and "search_filenameRE inc = Some t"
  shows "has_node t s'"
proof (cases rule: scanFile_cases [where filename = filename and s = s and input = input])
  case (known a)
  with assms show ?thesis by (auto intro: has_node_addLinks_target)
next
  case fresh
  have "registry_ok (snd (new_node filename s))"
    using assms(1) fresh(1) by (rule registry_ok_new_node)
  then show ?thesis using assms(2-4) fresh(2) by (auto intro: has_node_addLinks_target)
qed

lemma has_node_constructGraph:
  "registry_ok s \<Longrightarrow> has_node t s \<Longrightarrow> constructGraph target s = Inr s' \<Longrightarrow> has_node t s'"
proof (induction target arbitrary: s)
  case Nil
  then show ?case by simp
next
  case (Cons e rest)
  obtain filename content where e: "e = (filename, content)" by (cases e)
  show ?case
  proof (cases "isValidFile filename")
    case False
    with Cons e show ?thesis by simp
  next
    case True
    with Cons.prems e obtain input s1 where "content = Some input"
      and s1: "scanFile filename input s = Inr s1" and rest: "constructGraph rest s1 = Inr s'"
      by (auto split: option.splits sum.splits)
    from Cons.prems(1) s1 have "registry_ok s1" by (rule registry_ok_scanFile)
    moreover from Cons.prems(1,2) s1 have "has_node t s1" by (rule has_node_scanFile)
    ultimately show ?thesis using rest by (rule Cons.IH)
  qed
qed

lemma has_node_constructGraph_target:
  "registry_ok s \<Longrightarrow> constructGraph target s = Inr s' \<Longrightarrow> (filename, Some input) \<in> set target
     \<Longrightarrow> isValidFile filename \<Longrightarrow> inc \<in> set (findall_includeRE (stripComments input))
     \<Longrightarrow> search_filenameRE inc = Some t \<Longrightarrow> has_node t s'"
proof (induction target arbitrary: s)
  case Nil
  then show ?case by simp
next
  case (Cons e rest)
  obtain fn content where e: "e = (fn, content)" by (cases e)
  show ?case
  proof (cases "isValidFile fn")
    case False
    with Cons.prems e have "(filename, Some input) \<in> set rest" 
      and "constructGraph rest s = Inr s'" by auto
    with Cons.prems show ?thesis by (auto intro: Cons.IH)
  next
    case True
    with Cons.prems e obtain inp s1 where c: "content = Some inp"
      and s1: "scanFile fn inp s = Inr s1" and rest: "constructGraph rest s1 = Inr s'"
      by (auto split: option.splits sum.splits)
    from Cons.prems(1) s1 have ok1: "registry_ok s1" by (rule registry_ok_scanFile)
    show ?thesis
    proof (cases "(filename, Some input) = e")
      case True
      with e c have "fn = filename" "inp = input" by auto
      with Cons.prems s1 have "has_node t s1" by (auto intro: has_node_scanFile_target)
      with ok1 show ?thesis using rest by (rule has_node_constructGraph)
    next
      case False
      with Cons.prems(3) have "(filename, Some input) \<in> set rest" by simp
      with ok1 rest show ?thesis using Cons.prems(4-6) by (rule Cons.IH)
    qed
  qed
qed


lemma length_heap_addLink: "length (heap s) \<le> length (heap (addLink self n s))"
  by (cases rule: addLink_cases [where n = n and s = s and self = self])
     (auto simp: new_node_props)

lemma leaf_append_link:
  assumes "leaf t s" and "name (heap s ! self) \<noteq> t"
  shows "leaf t (append_link self x s)"
  using assms by (auto simp: leaf_def links_append_link)

lemma leaf_new_node:
  assumes "registry_ok s" and "leaf t s"
  shows "leaf t (snd (new_node n s))"
  using assms
  by (auto simp: leaf_def new_node_props nth_append Node_def dest: registry_ok_valid)

lemma leaf_addLink:
  assumes "registry_ok s" and "leaf t s" and "self < length (heap s)"
    and "name (heap s ! self) \<noteq> t"
  shows "leaf t (addLink self n s)"
proof (cases rule: addLink_cases [where n = n and s = s and self = self])
  case (known a)
  with assms show ?thesis by (simp add: leaf_append_link)
next
  case fresh
  have "leaf t (snd (new_node n s))" using assms(1,2) by (rule leaf_new_node)
  moreover have "name (heap (snd (new_node n s)) ! self) \<noteq> t"
    using assms(3,4) by (simp add: new_node_props nth_append)
  ultimately show ?thesis using fresh by (simp add: leaf_append_link)
qed

lemma leaf_addLinks:
  "registry_ok s \<Longrightarrow> leaf t s \<Longrightarrow> self < length (heap s) \<Longrightarrow> name (heap s ! self) \<noteq> t
     \<Longrightarrow> addLinks self incs s = Inr s' \<Longrightarrow> leaf t s'"
proof (induction incs arbitrary: s)
  case Nil
  then show ?case by simp
next
  case (Cons inc incs)
  from Cons.prems(5) obtain n where n: "search_filenameRE inc = Some n"
    and r: "addLinks self incs (addLink self n s) = Inr s'"
    by (auto split: option.splits)
  have "registry_ok (addLink self n s)" using Cons.prems(1) by (rule registry_ok_addLink)
  moreover have "leaf t (addLink self n s)" using Cons.prems(1-4) by (rule leaf_addLink)
  moreover have "self < length (heap (addLink self n s))"
    using Cons.prems(3) length_heap_addLink [of s self n] by simp
  moreover have "name (heap (addLink self n s) ! self) \<noteq> t"
    using Cons.prems(3,4) by (simp add: name_addLink)
  ultimately show ?case using r by (rule Cons.IH)
qed

lemma leaf_scanFile:
  assumes "registry_ok s" and "leaf t s" and "filename \<noteq> t"
    and "scanFile filename input s = Inr s'"
  shows "leaf t s'"
proof (cases rule: scanFile_cases [where filename = filename and s = s and input = input])
  case (known a)
  then have "a \<in> set (nodes s)" "name (heap s ! a) = filename" by (auto dest: inNodes_Some)
  moreover then have "a < length (heap s)" using assms(1) by (simp add: registry_ok_valid)
  ultimately show ?thesis using assms known(2) by (auto intro: leaf_addLinks)
next
  case fresh
  let ?s1 = "snd (new_node filename s)"
  have "registry_ok ?s1" using assms(1) fresh(1) by (rule registry_ok_new_node)
  moreover have "leaf t ?s1" using assms(1,2) by (rule leaf_new_node)
  moreover have "length (heap s) < length (heap ?s1)" by (simp add: new_node_props)
  moreover have "name (heap ?s1 ! length (heap s)) \<noteq> t"
    using assms(3) by (simp add: new_node_props Node_def)
  moreover have "addLinks (length (heap s)) (findall_includeRE (stripComments input)) ?s1 = Inr s'"
    using assms(4) fresh(2) by simp
  ultimately show ?thesis by (rule leaf_addLinks)
qed

lemma leaf_constructGraph:
  "registry_ok s \<Longrightarrow> leaf t s \<Longrightarrow> t \<notin> fst ` set target \<Longrightarrow> constructGraph target s = Inr s'
     \<Longrightarrow> leaf t s'"
proof (induction target arbitrary: s)
  case Nil
  then show ?case by simp
next
  case (Cons e rest)
  obtain filename content where e: "e = (filename, content)" by (cases e)
  from Cons.prems(3) e have ne: "filename \<noteq> t" and nr: "t \<notin> fst ` set rest" by auto
  show ?case
  proof (cases "isValidFile filename")
    case False
    with Cons.prems e have "constructGraph rest s = Inr s'" by simp
    with Cons.prems(1,2) nr show ?thesis by (rule Cons.IH)
  next
    case True
    with Cons.prems e obtain input s1 where "content = Some input"
      and s1: "scanFile filename input s = Inr s1" and rest: "constructGraph rest s1 = Inr s'"
      by (auto split: option.splits sum.splits)
    from Cons.prems(1) s1 have "registry_ok s1" by (rule registry_ok_scanFile)
    moreover from Cons.prems(1,2) ne s1 have "leaf t s1" by (rule leaf_scanFile)
    ultimately show ?thesis using nr rest by (rule Cons.IH)
  qed
qed

lemma find_append_None:
  "find P xs = None \<Longrightarrow> find P (xs @ ys) = find P ys"
  by (induction xs) (auto split: if_splits)

lemma registry_ok_same_name:
  assumes "registry_ok s" and "a \<in> set (nodes s)" and "b \<in> set (nodes s)"
    and "name (heap s ! a) = name (heap s ! b)"
  shows "a = b"
proof -
  from assms(1) have "inj_on (\<lambda>a. name (heap s ! a)) (set (nodes s))"
    by (simp add: registry_ok_def distinct_map)
  with assms(2-4) show ?thesis by (auto dest: inj_onD)
qed

lemma inNodes_registered:
  assumes "registry_ok s" and "a \<in> set (nodes s)"
  shows "inNodes (name (heap s ! a)) s = Some a"
proof (cases "inNodes (name (heap s ! a)) s")
  case None
  with assms(2) show ?thesis using inNodes_None by blast
next
  case (Some b)
  then have "b \<in> set (nodes s)" "name (heap s ! b) = name (heap s ! a)"
    by (auto dest: inNodes_Some)
  with assms have "b = a" by (auto intro: registry_ok_same_name)
  with Some show ?thesis by simp
qed

lemma inNodes_append_link [simp]: "inNodes n (append_link self t s) = inNodes n s"
  by (simp add: inNodes_def)

lemma inNodes_addLink:
  assumes "registry_ok s" and "self \<in> set (nodes s)"
  shows "inNodes n (addLink self n s) = Some (last (links (heap (addLink self n s) ! self)))"
proof (cases rule: addLink_cases [where n = n and s = s and self = self])
  case (known a)
  from assms have "self < length (heap s)" by (rule registry_ok_valid)
  with known show ?thesis by (simp add: links_append_link)
next
  case fresh
  from assms have v: "self < length (heap s)" by (rule registry_ok_valid)
  let ?s1 = "snd (new_node n s)"
  have "\<forall>a \<in> set (nodes s). n \<noteq> name (heap ?s1 ! a)"
    using fresh(1) assms(1)
    by (auto simp: new_node_props nth_append dest: inNodes_None registry_ok_valid)
  then have "find (\<lambda>a. n = name (heap ?s1 ! a)) (nodes s) = None"
    by (simp add: find_None_iff)
  then have "inNodes n ?s1 = Some (length (heap s))"
    by (simp add: inNodes_def new_node_props find_append_None Node_def)
  moreover have "last (links (heap (append_link self (length (heap s)) ?s1) ! self)) = length (heap s)"
    using v by (simp add: links_append_link new_node_props)
  ultimately show ?thesis using fresh(2) by simp
qed

subsection \<open>What the elementary steps change\<close>

lemma enter_fields [simp]:
  "nodeStack (enter n s) = n # nodeStack s"
  "indexCount (enter n s) = indexCount s + 1"
  "nodes (enter n s) = nodes s"
  "stdout (enter n s) = stdout s"
  "cyclesDetected (enter n s) = cyclesDetected s"
  "length (heap (enter n s)) = length (heap s)"
  by (simp_all add: enter_def)

lemma enter_node [simp]:
  "lnk (enter n s) a = lnk s a"
  "name (heap (enter n s) ! a) = name (heap s ! a)"
  "idx (enter n s) a = (if a = n \<and> n < length (heap s) then indexCount s else idx s a)"
  "low (enter n s) a = (if a = n \<and> n < length (heap s) then indexCount s else low s a)"
  by (cases "n < length (heap s)"; cases "a = n"; simp add: enter_def list_update_beyond)+

lemma set_lowlink_fields [simp]:
  "nodeStack (set_lowlink n v s) = nodeStack s"
  "indexCount (set_lowlink n v s) = indexCount s"
  "nodes (set_lowlink n v s) = nodes s"
  "stdout (set_lowlink n v s) = stdout s"
  "cyclesDetected (set_lowlink n v s) = cyclesDetected s"
  "length (heap (set_lowlink n v s)) = length (heap s)"
  by (simp_all add: set_lowlink_def)

lemma set_lowlink_node [simp]:
  "lnk (set_lowlink n v s) a = lnk s a"
  "name (heap (set_lowlink n v s) ! a) = name (heap s ! a)"
  "idx (set_lowlink n v s) a = idx s a"
  "low (set_lowlink n v s) a = (if a = n \<and> n < length (heap s) then v else low s a)"
  by (cases "n < length (heap s)"; cases "a = n"; simp add: set_lowlink_def list_update_beyond)+

lemma finish_cases:
  assumes "finish n s = Inr s'"
  obtains (unfinished) "low s n \<noteq> idx s n" "s' = s"
  | (single) cycle rest where "low s n = idx s n" "pop_cycle n (nodeStack s) = Some (cycle, rest)"
      "length cycle \<le> 1" "s' = s\<lparr>nodeStack := rest\<rparr>"
  | (reported) cycle rest where "low s n = idx s n" "pop_cycle n (nodeStack s) = Some (cycle, rest)"
      "length cycle > 1" "s' = report cycle (s\<lparr>nodeStack := rest\<rparr>)"
  using assms by (auto simp: finish_def Let_def split: if_splits option.splits)

lemma report_fields [simp]:
  "nodeStack (report c s) = nodeStack s"
  "indexCount (report c s) = indexCount s"
  "nodes (report c s) = nodes s"
  "heap (report c s) = heap s"
  "cyclesDetected (report c s) = True"
  "stdout (report c s) =
     stdout s @ [''Cyclic dependency detected:'', chain (map (\<lambda>a. name (heap s ! a)) c)]"
  by (simp_all add: report_def)

lemma pop_cycle_split:
  "pop_cycle n st = Some (cycle, rest) \<Longrightarrow>
     \<exists>pre. cycle = pre @ [n] \<and> n \<notin> set pre \<and> st = pre @ n # rest"
proof (induction st arbitrary: cycle)
  case Nil
  then show ?case by simp
next
  case (Cons x st)
  show ?case
  proof (cases "x = n")
    case True
    with Cons.prems show ?thesis by auto
  next
    case False
    with Cons.prems obtain c where c: "pop_cycle n st = Some (c, rest)" and "cycle = x # c"
      by (auto split: option.splits)
    from Cons.IH [OF c] obtain pre where "c = pre @ [n]" "n \<notin> set pre" "st = pre @ n # rest"
      by blast
    with False \<open>cycle = x # c\<close> have "cycle = (x # pre) @ [n] \<and> n \<notin> set (x # pre) \<and> x # st = (x # pre) @ n # rest"
      by simp
    then show ?thesis by blast
  qed
qed

lemma pop_cycle_found:
  "n \<notin> set pre \<Longrightarrow> pop_cycle n (pre @ n # rest) = Some (pre @ [n], rest)"
  by (induction pre) auto

lemma pop_cycle_mem: "n \<in> set st \<Longrightarrow> pop_cycle n st \<noteq> None"
  by (induction st) (auto split: option.splits)

subsection \<open>Reasoning about the loop and the recursion\<close>

lemma tarjan_Suc_cases:
  assumes "tarjan (Suc k) n s = Some (Inr s')"
  obtains s2 where
    "visit_children (tarjan k) n (lnk (enter n s) n) (enter n s) = Some (Inr s2)"
    "finish n s2 = Inr s'"
  using assms by (auto simp: Let_def split: option.splits sum.splits)

lemma visit_children_invariant:
  assumes "visit_children call n cs s = Some (Inr s')" and "I seen s"
    and "\<And>c seen s1 s2. I seen s1 \<Longrightarrow> c \<in> set cs \<Longrightarrow> visit_child call n c s1 = Some (Inr s2)
           \<Longrightarrow> I (seen @ [c]) s2"
  shows "I (seen @ cs) s'"
  using assms
proof (induction cs arbitrary: s seen)
  case Nil
  then show ?case by simp
next
  case (Cons c cs)
  from Cons.prems(1) obtain s1 where c: "visit_child call n c s = Some (Inr s1)"
    and r: "visit_children call n cs s1 = Some (Inr s')"
    by (auto split: option.splits sum.splits)
  have "I (seen @ [c]) s1" using Cons.prems(2) c by (auto intro: Cons.prems(3))
  with r have "I ((seen @ [c]) @ cs) s'" by (rule Cons.IH) (auto intro: Cons.prems(3))
  then show ?case by simp
qed

lemma visit_child_cases:
  assumes "visit_child call n c s = Some (Inr s')"
  obtains (fresh_child) s1 where "idx s c = -1" "call c s = Some (Inr s1)"
      "s' = set_lowlink n (min (low s1 n) (low s1 c)) s1"
  | (stacked_child) "idx s c \<noteq> -1" "c \<in> set (nodeStack s)"
      "s' = set_lowlink n (min (low s n) (idx s c)) s"
  | (closed_child) "idx s c \<noteq> -1" "c \<notin> set (nodeStack s)" "s' = s"
  using assms by (auto simp: visit_child_def split: if_splits option.splits sum.splits)

text \<open>
  A proof rule for \<open>tarjan\<close>: \<open>Pre\<close> holds where a call starts, \<open>Inv\<close> relates the state
  at the start of a call to the states inside its loop, \<open>Post\<close> relates it to the state
  at return.
\<close>

lemma tarjan_rule:
  assumes ret: "tarjan k n s = Some (Inr s')" and pre: "Pre n s"
    and enterI: "\<And>n s. Pre n s \<Longrightarrow> Inv n s [] (enter n s)"
    and callI: "\<And>n s seen cur c. Pre n s \<Longrightarrow> Inv n s seen cur \<Longrightarrow> c \<in> set (lnk s n)
                  \<Longrightarrow> idx cur c = -1 \<Longrightarrow> Pre c cur"
    and freshI: "\<And>n s seen cur c cur2 k'. Pre n s \<Longrightarrow> Inv n s seen cur \<Longrightarrow> c \<in> set (lnk s n)
                  \<Longrightarrow> idx cur c = -1 \<Longrightarrow> tarjan k' c cur = Some (Inr cur2)
                  \<Longrightarrow> Post c cur cur2
                  \<Longrightarrow> Inv n s (seen @ [c]) (set_lowlink n (min (low cur2 n) (low cur2 c)) cur2)"
    and stackedI: "\<And>n s seen cur c. Pre n s \<Longrightarrow> Inv n s seen cur \<Longrightarrow> c \<in> set (lnk s n)
                  \<Longrightarrow> idx cur c \<noteq> -1 \<Longrightarrow> c \<in> set (nodeStack cur)
                  \<Longrightarrow> Inv n s (seen @ [c]) (set_lowlink n (min (low cur n) (idx cur c)) cur)"
    and closedI: "\<And>n s seen cur c. Pre n s \<Longrightarrow> Inv n s seen cur \<Longrightarrow> c \<in> set (lnk s n)
                  \<Longrightarrow> idx cur c \<noteq> -1 \<Longrightarrow> c \<notin> set (nodeStack cur)
                  \<Longrightarrow> Inv n s (seen @ [c]) cur"
    and finishI: "\<And>n s cur s'. Pre n s \<Longrightarrow> Inv n s (lnk s n) cur \<Longrightarrow> finish n cur = Inr s'
                  \<Longrightarrow> Post n s s'"
  shows "Post n s s'"
  using ret pre
proof (induction k arbitrary: n s s')
  case 0
  then show ?case by simp
next
  case (Suc k)
  from Suc.prems(1) obtain s2 where
    loop: "visit_children (tarjan k) n (lnk (enter n s) n) (enter n s) = Some (Inr s2)"
    and fin: "finish n s2 = Inr s'"
    by (rule tarjan_Suc_cases)
  have "Inv n s ([] @ lnk (enter n s) n) s2"
    using loop
  proof (rule visit_children_invariant)
    show "Inv n s [] (enter n s)" using Suc.prems(2) by (rule enterI)
  next
    fix c seen cur cur'
    assume inv: "Inv n s seen cur" and "c \<in> set (lnk (enter n s) n)"
      and step: "visit_child (tarjan k) n c cur = Some (Inr cur')"
    then have c: "c \<in> set (lnk s n)" by simp
    from step show "Inv n s (seen @ [c]) cur'"
    proof (cases rule: visit_child_cases)
      case (fresh_child cur2)
      have "Pre c cur" using Suc.prems(2) inv c fresh_child(1) by (rule callI)
      with fresh_child(2) have "Post c cur cur2" by (rule Suc.IH)
      with Suc.prems(2) inv c fresh_child(1,2) show ?thesis
        unfolding fresh_child(3) by (rule freshI)
    next
      case stacked_child
      with Suc.prems(2) inv c show ?thesis by (simp add: stackedI)
    next
      case closed_child
      with Suc.prems(2) inv c show ?thesis by (simp add: closedI)
    qed
  qed
  then have "Inv n s (lnk s n) s2" by simp
  with Suc.prems(2) show ?case using fin by (rule finishI)
qed

subsection \<open>The basic facts about one call\<close>

lemma graph_okD: "graph_ok s \<Longrightarrow> a < length (heap s) \<Longrightarrow> c \<in> set (lnk s a) \<Longrightarrow> c < length (heap s)"
  by (auto simp: graph_ok_def)

lemma graph_ok_same: "same_graph s s' \<Longrightarrow> graph_ok s \<Longrightarrow> graph_ok s'"
  by (simp add: graph_ok_def same_graph_def all_set_conv_all_nth)

lemma tarjan_inv_index: "tarjan_inv s \<Longrightarrow> a < length (heap s) \<Longrightarrow> idx s a < indexCount s"
  by (simp add: tarjan_inv_def)

lemma tarjan_inv_stack:
  "tarjan_inv s \<Longrightarrow> a \<in> set (nodeStack s) \<Longrightarrow> a < length (heap s) \<and> idx s a \<noteq> -1"
  by (simp add: tarjan_inv_def)

lemma tarjan_invI:
  assumes "0 \<le> indexCount s" and "graph_ok s"
    and "\<And>a. a \<in> set (nodeStack s) \<Longrightarrow> a < length (heap s) \<and> idx s a \<noteq> -1"
    and "\<And>a. a < length (heap s) \<Longrightarrow> idx s a < indexCount s"
  shows "tarjan_inv s"
  using assms by (auto simp: tarjan_inv_def all_set_conv_all_nth)

lemma same_graph_refl [simp]: "same_graph s s"
  by (simp add: same_graph_def)

lemma same_graph_trans: "same_graph a b \<Longrightarrow> same_graph b c \<Longrightarrow> same_graph a c"
  by (simp add: same_graph_def)

lemma same_graph_enter [simp]: "same_graph s (enter n s)"
  by (simp add: same_graph_def)

lemma same_graph_set_lowlink [simp]: "same_graph s (set_lowlink n v s)"
  by (simp add: same_graph_def)

lemma tarjan_inv_enter:
  assumes "tarjan_inv s" and "n < length (heap s)"
  shows "tarjan_inv (enter n s)"
proof (rule tarjan_invI)
  show "0 \<le> indexCount (enter n s)" using assms by (simp add: tarjan_inv_def)
  show "graph_ok (enter n s)" using assms by (auto intro: graph_ok_same [of s] simp: tarjan_inv_def)
next
  fix a assume "a \<in> set (nodeStack (enter n s))"
  then show "a < length (heap (enter n s)) \<and> idx (enter n s) a \<noteq> -1"
    using assms by (auto simp: tarjan_inv_def)
next
  fix a assume "a < length (heap (enter n s))"
  then show "idx (enter n s) a < indexCount (enter n s)"
    using assms tarjan_inv_index [of s a] by auto
qed

lemma tarjan_inv_set_lowlink:
  assumes "tarjan_inv s"
  shows "tarjan_inv (set_lowlink n v s)"
proof (rule tarjan_invI)
  show "0 \<le> indexCount (set_lowlink n v s)" using assms by (simp add: tarjan_inv_def)
  show "graph_ok (set_lowlink n v s)"
    using assms by (auto intro: graph_ok_same [of s] simp: tarjan_inv_def)
next
  fix a assume "a \<in> set (nodeStack (set_lowlink n v s))"
  then show "a < length (heap (set_lowlink n v s)) \<and> idx (set_lowlink n v s) a \<noteq> -1"
    using assms by (auto simp: tarjan_inv_def)
next
  fix a assume "a < length (heap (set_lowlink n v s))"
  then show "idx (set_lowlink n v s) a < indexCount (set_lowlink n v s)"
    using assms tarjan_inv_index [of s a] by auto
qed

lemma basic_enter:
  assumes "call_pre n s"
  shows "loop_basic n s [] (enter n s)"
proof -
  from assms have inv: "tarjan_inv s" and n: "n < length (heap s)" by (auto simp: call_pre_def)
  have "tarjan_inv (enter n s)" using inv n by (rule tarjan_inv_enter)
  moreover have "\<exists>new. nodeStack (enter n s) = new @ n # nodeStack s \<and> (\<forall>x \<in> set new. idx s x = -1 \<and> x \<noteq> n)"
    by (rule exI [of _ "[]"]) simp
  moreover have "\<forall>a < length (heap s). idx s a = -1 \<and> idx (enter n s) a \<noteq> -1 \<longrightarrow> indexCount s \<le> idx (enter n s) a"
    by auto
  moreover have "\<forall>a < length (heap s). idx s a \<noteq> -1 \<longrightarrow> idx (enter n s) a \<noteq> -1"
    using inv by (auto simp: tarjan_inv_def)
  ultimately show ?thesis using n by (simp add: loop_basic_def)
qed

lemma loop_basicD:
  assumes "loop_basic n s seen cur"
  shows "tarjan_inv cur"
    and "same_graph s cur"
    and "indexCount s < indexCount cur"
    and "\<exists>extra. stdout cur = stdout s @ extra"
    and "cyclesDetected s \<Longrightarrow> cyclesDetected cur"
    and "idx cur n = indexCount s"
    and "low cur n \<le> indexCount s"
    and "\<And>a. a < length (heap s) \<Longrightarrow> a \<noteq> n \<Longrightarrow> idx s a \<noteq> -1
           \<Longrightarrow> idx cur a = idx s a \<and> low cur a = low s a"
    and "\<And>a. a < length (heap s) \<Longrightarrow> idx s a \<noteq> -1 \<Longrightarrow> idx cur a \<noteq> -1"
    and "\<And>a. a < length (heap s) \<Longrightarrow> idx s a = -1 \<Longrightarrow> idx cur a \<noteq> -1
           \<Longrightarrow> indexCount s \<le> idx cur a"
    and "\<exists>new. nodeStack cur = new @ n # nodeStack s \<and> (\<forall>x \<in> set new. idx s x = -1 \<and> x \<noteq> n)"
    and "\<And>b. b \<le> indexCount s \<Longrightarrow> (\<forall>x \<in> set (nodeStack s). b \<le> idx s x) \<Longrightarrow> b \<le> low cur n"
    and "\<And>c. c \<in> set seen \<Longrightarrow> c < length (heap s) \<and> idx cur c \<noteq> -1"
    and "\<And>a c. a < length (heap s) \<Longrightarrow> a \<noteq> n \<Longrightarrow> idx s a = -1 \<Longrightarrow> idx cur a \<noteq> -1
           \<Longrightarrow> c \<in> set (lnk s a) \<Longrightarrow> idx cur c \<noteq> -1"
proof -
  note c = assms [unfolded loop_basic_def]
  show "tarjan_inv cur"
    using c [THEN conjunct1] by blast
  show "same_graph s cur"
    using c [THEN conjunct2, THEN conjunct1] by blast
  show "indexCount s < indexCount cur"
    using c [THEN conjunct2, THEN conjunct2, THEN conjunct1] by blast
  show "\<exists>extra. stdout cur = stdout s @ extra"
    using c [THEN conjunct2, THEN conjunct2, THEN conjunct2, THEN conjunct1] by blast
  show "cyclesDetected s \<Longrightarrow> cyclesDetected cur"
    using c [THEN conjunct2, THEN conjunct2, THEN conjunct2, THEN conjunct2, THEN conjunct1] by blast
  show "idx cur n = indexCount s"
    using c [THEN conjunct2, THEN conjunct2, THEN conjunct2, THEN conjunct2, THEN conjunct2, THEN conjunct1] by blast
  show "low cur n \<le> indexCount s"
    using c [THEN conjunct2, THEN conjunct2, THEN conjunct2, THEN conjunct2, THEN conjunct2, THEN conjunct2, THEN conjunct1] by blast
  show "\<And>a. a < length (heap s) \<Longrightarrow> a \<noteq> n \<Longrightarrow> idx s a \<noteq> -1
           \<Longrightarrow> idx cur a = idx s a \<and> low cur a = low s a"
    using c [THEN conjunct2, THEN conjunct2, THEN conjunct2, THEN conjunct2, THEN conjunct2, THEN conjunct2, THEN conjunct2, THEN conjunct1] by blast
  show "\<And>a. a < length (heap s) \<Longrightarrow> idx s a \<noteq> -1 \<Longrightarrow> idx cur a \<noteq> -1"
    using c [THEN conjunct2, THEN conjunct2, THEN conjunct2, THEN conjunct2, THEN conjunct2, THEN conjunct2, THEN conjunct2, THEN conjunct2, THEN conjunct1] by blast
  show "\<And>a. a < length (heap s) \<Longrightarrow> idx s a = -1 \<Longrightarrow> idx cur a \<noteq> -1
           \<Longrightarrow> indexCount s \<le> idx cur a"
    using c [THEN conjunct2, THEN conjunct2, THEN conjunct2, THEN conjunct2, THEN conjunct2, THEN conjunct2, THEN conjunct2, THEN conjunct2, THEN conjunct2, THEN conjunct1] by blast
  show "\<exists>new. nodeStack cur = new @ n # nodeStack s \<and> (\<forall>x \<in> set new. idx s x = -1 \<and> x \<noteq> n)"
    using c [THEN conjunct2, THEN conjunct2, THEN conjunct2, THEN conjunct2, THEN conjunct2, THEN conjunct2, THEN conjunct2, THEN conjunct2, THEN conjunct2, THEN conjunct2, THEN conjunct1] by blast
  show "\<And>b. b \<le> indexCount s \<Longrightarrow> (\<forall>x \<in> set (nodeStack s). b \<le> idx s x) \<Longrightarrow> b \<le> low cur n"
    using c [THEN conjunct2, THEN conjunct2, THEN conjunct2, THEN conjunct2, THEN conjunct2, THEN conjunct2, THEN conjunct2, THEN conjunct2, THEN conjunct2, THEN conjunct2, THEN conjunct2, THEN conjunct1] by blast
  show "\<And>c. c \<in> set seen \<Longrightarrow> c < length (heap s) \<and> idx cur c \<noteq> -1"
    using c [THEN conjunct2, THEN conjunct2, THEN conjunct2, THEN conjunct2, THEN conjunct2, THEN conjunct2, THEN conjunct2, THEN conjunct2, THEN conjunct2, THEN conjunct2, THEN conjunct2, THEN conjunct2, THEN conjunct1] by blast
  show "\<And>a c. a < length (heap s) \<Longrightarrow> a \<noteq> n \<Longrightarrow> idx s a = -1 \<Longrightarrow> idx cur a \<noteq> -1
           \<Longrightarrow> c \<in> set (lnk s a) \<Longrightarrow> idx cur c \<noteq> -1"
    using c [THEN conjunct2, THEN conjunct2, THEN conjunct2, THEN conjunct2, THEN conjunct2, THEN conjunct2, THEN conjunct2, THEN conjunct2, THEN conjunct2, THEN conjunct2, THEN conjunct2, THEN conjunct2, THEN conjunct2] by blast
qed

lemma loop_basicI:
  assumes "tarjan_inv cur"
    and "same_graph s cur"
    and "indexCount s < indexCount cur"
    and "\<exists>extra. stdout cur = stdout s @ extra"
    and "cyclesDetected s \<Longrightarrow> cyclesDetected cur"
    and "idx cur n = indexCount s"
    and "low cur n \<le> indexCount s"
    and "\<And>a. a < length (heap s) \<Longrightarrow> a \<noteq> n \<Longrightarrow> idx s a \<noteq> -1
           \<Longrightarrow> idx cur a = idx s a \<and> low cur a = low s a"
    and "\<And>a. a < length (heap s) \<Longrightarrow> idx s a \<noteq> -1 \<Longrightarrow> idx cur a \<noteq> -1"
    and "\<And>a. a < length (heap s) \<Longrightarrow> idx s a = -1 \<Longrightarrow> idx cur a \<noteq> -1
           \<Longrightarrow> indexCount s \<le> idx cur a"
    and "\<exists>new. nodeStack cur = new @ n # nodeStack s \<and> (\<forall>x \<in> set new. idx s x = -1 \<and> x \<noteq> n)"
    and "\<And>b. b \<le> indexCount s \<Longrightarrow> (\<forall>x \<in> set (nodeStack s). b \<le> idx s x) \<Longrightarrow> b \<le> low cur n"
    and "\<And>c. c \<in> set seen \<Longrightarrow> c < length (heap s) \<and> idx cur c \<noteq> -1"
    and "\<And>a c. a < length (heap s) \<Longrightarrow> a \<noteq> n \<Longrightarrow> idx s a = -1 \<Longrightarrow> idx cur a \<noteq> -1
           \<Longrightarrow> c \<in> set (lnk s a) \<Longrightarrow> idx cur c \<noteq> -1"
  shows "loop_basic n s seen cur"
  unfolding loop_basic_def
  apply (intro conjI)
  subgoal using assms(1) by blast
  subgoal using assms(2) by blast
  subgoal using assms(3) by blast
  subgoal using assms(4) by blast
  subgoal using assms(5) by blast
  subgoal using assms(6) by blast
  subgoal using assms(7) by blast
  subgoal using assms(8) by blast
  subgoal using assms(9) by blast
  subgoal using assms(10) by blast
  subgoal using assms(11) by blast
  subgoal using assms(12) by blast
  subgoal using assms(13) by blast
  subgoal using assms(14) by blast
  done

lemma call_postD:
  assumes "call_post n s s'"
  shows "tarjan_inv s'"
    and "same_graph s s'"
    and "indexCount s < indexCount s'"
    and "\<exists>extra. stdout s' = stdout s @ extra"
    and "cyclesDetected s \<Longrightarrow> cyclesDetected s'"
    and "idx s' n = indexCount s"
    and "low s' n \<le> indexCount s"
    and "\<And>a. a < length (heap s) \<Longrightarrow> a \<noteq> n \<Longrightarrow> idx s a \<noteq> -1
           \<Longrightarrow> idx s' a = idx s a \<and> low s' a = low s a"
    and "\<And>a. a < length (heap s) \<Longrightarrow> idx s a \<noteq> -1 \<Longrightarrow> idx s' a \<noteq> -1"
    and "\<And>a. a < length (heap s) \<Longrightarrow> idx s a = -1 \<Longrightarrow> idx s' a \<noteq> -1
           \<Longrightarrow> indexCount s \<le> idx s' a"
    and "(low s' n = idx s' n \<and> nodeStack s' = nodeStack s) \<or>
         (low s' n \<noteq> idx s' n \<and>
          (\<exists>new. nodeStack s' = new @ n # nodeStack s \<and> (\<forall>x \<in> set new. idx s x = -1 \<and> x \<noteq> n)))"
    and "\<And>b. b \<le> indexCount s \<Longrightarrow> (\<forall>x \<in> set (nodeStack s). b \<le> idx s x) \<Longrightarrow> b \<le> low s' n"
    and "\<And>a c. a < length (heap s) \<Longrightarrow> a = n \<or> idx s a = -1 \<Longrightarrow> idx s' a \<noteq> -1
           \<Longrightarrow> c \<in> set (lnk s a) \<Longrightarrow> idx s' c \<noteq> -1"
proof -
  note c = assms [unfolded call_post_def]
  show "tarjan_inv s'"
    using c [THEN conjunct1] by blast
  show "same_graph s s'"
    using c [THEN conjunct2, THEN conjunct1] by blast
  show "indexCount s < indexCount s'"
    using c [THEN conjunct2, THEN conjunct2, THEN conjunct1] by blast
  show "\<exists>extra. stdout s' = stdout s @ extra"
    using c [THEN conjunct2, THEN conjunct2, THEN conjunct2, THEN conjunct1] by blast
  show "cyclesDetected s \<Longrightarrow> cyclesDetected s'"
    using c [THEN conjunct2, THEN conjunct2, THEN conjunct2, THEN conjunct2, THEN conjunct1] by blast
  show "idx s' n = indexCount s"
    using c [THEN conjunct2, THEN conjunct2, THEN conjunct2, THEN conjunct2, THEN conjunct2, THEN conjunct1] by blast
  show "low s' n \<le> indexCount s"
    using c [THEN conjunct2, THEN conjunct2, THEN conjunct2, THEN conjunct2, THEN conjunct2, THEN conjunct2, THEN conjunct1] by blast
  show "\<And>a. a < length (heap s) \<Longrightarrow> a \<noteq> n \<Longrightarrow> idx s a \<noteq> -1
           \<Longrightarrow> idx s' a = idx s a \<and> low s' a = low s a"
    using c [THEN conjunct2, THEN conjunct2, THEN conjunct2, THEN conjunct2, THEN conjunct2, THEN conjunct2, THEN conjunct2, THEN conjunct1] by blast
  show "\<And>a. a < length (heap s) \<Longrightarrow> idx s a \<noteq> -1 \<Longrightarrow> idx s' a \<noteq> -1"
    using c [THEN conjunct2, THEN conjunct2, THEN conjunct2, THEN conjunct2, THEN conjunct2, THEN conjunct2, THEN conjunct2, THEN conjunct2, THEN conjunct1] by blast
  show "\<And>a. a < length (heap s) \<Longrightarrow> idx s a = -1 \<Longrightarrow> idx s' a \<noteq> -1
           \<Longrightarrow> indexCount s \<le> idx s' a"
    using c [THEN conjunct2, THEN conjunct2, THEN conjunct2, THEN conjunct2, THEN conjunct2, THEN conjunct2, THEN conjunct2, THEN conjunct2, THEN conjunct2, THEN conjunct1] by blast
  show "(low s' n = idx s' n \<and> nodeStack s' = nodeStack s) \<or>
         (low s' n \<noteq> idx s' n \<and>
          (\<exists>new. nodeStack s' = new @ n # nodeStack s \<and> (\<forall>x \<in> set new. idx s x = -1 \<and> x \<noteq> n)))"
    using c [THEN conjunct2, THEN conjunct2, THEN conjunct2, THEN conjunct2, THEN conjunct2, THEN conjunct2, THEN conjunct2, THEN conjunct2, THEN conjunct2, THEN conjunct2, THEN conjunct1] by blast
  show "\<And>b. b \<le> indexCount s \<Longrightarrow> (\<forall>x \<in> set (nodeStack s). b \<le> idx s x) \<Longrightarrow> b \<le> low s' n"
    using c [THEN conjunct2, THEN conjunct2, THEN conjunct2, THEN conjunct2, THEN conjunct2, THEN conjunct2, THEN conjunct2, THEN conjunct2, THEN conjunct2, THEN conjunct2, THEN conjunct2, THEN conjunct1] by blast
  show "\<And>a c. a < length (heap s) \<Longrightarrow> a = n \<or> idx s a = -1 \<Longrightarrow> idx s' a \<noteq> -1
           \<Longrightarrow> c \<in> set (lnk s a) \<Longrightarrow> idx s' c \<noteq> -1"
    using c [THEN conjunct2, THEN conjunct2, THEN conjunct2, THEN conjunct2, THEN conjunct2, THEN conjunct2, THEN conjunct2, THEN conjunct2, THEN conjunct2, THEN conjunct2, THEN conjunct2, THEN conjunct2] by blast
qed

lemma call_postI:
  assumes "tarjan_inv s'"
    and "same_graph s s'"
    and "indexCount s < indexCount s'"
    and "\<exists>extra. stdout s' = stdout s @ extra"
    and "cyclesDetected s \<Longrightarrow> cyclesDetected s'"
    and "idx s' n = indexCount s"
    and "low s' n \<le> indexCount s"
    and "\<And>a. a < length (heap s) \<Longrightarrow> a \<noteq> n \<Longrightarrow> idx s a \<noteq> -1
           \<Longrightarrow> idx s' a = idx s a \<and> low s' a = low s a"
    and "\<And>a. a < length (heap s) \<Longrightarrow> idx s a \<noteq> -1 \<Longrightarrow> idx s' a \<noteq> -1"
    and "\<And>a. a < length (heap s) \<Longrightarrow> idx s a = -1 \<Longrightarrow> idx s' a \<noteq> -1
           \<Longrightarrow> indexCount s \<le> idx s' a"
    and "(low s' n = idx s' n \<and> nodeStack s' = nodeStack s) \<or>
         (low s' n \<noteq> idx s' n \<and>
          (\<exists>new. nodeStack s' = new @ n # nodeStack s \<and> (\<forall>x \<in> set new. idx s x = -1 \<and> x \<noteq> n)))"
    and "\<And>b. b \<le> indexCount s \<Longrightarrow> (\<forall>x \<in> set (nodeStack s). b \<le> idx s x) \<Longrightarrow> b \<le> low s' n"
    and "\<And>a c. a < length (heap s) \<Longrightarrow> a = n \<or> idx s a = -1 \<Longrightarrow> idx s' a \<noteq> -1
           \<Longrightarrow> c \<in> set (lnk s a) \<Longrightarrow> idx s' c \<noteq> -1"
  shows "call_post n s s'"
  unfolding call_post_def
  apply (intro conjI)
  subgoal using assms(1) by blast
  subgoal using assms(2) by blast
  subgoal using assms(3) by blast
  subgoal using assms(4) by blast
  subgoal using assms(5) by blast
  subgoal using assms(6) by blast
  subgoal using assms(7) by blast
  subgoal using assms(8) by blast
  subgoal using assms(9) by blast
  subgoal using assms(10) by blast
  subgoal using assms(11) by blast
  subgoal using assms(12) by blast
  subgoal using assms(13) by blast
  done

lemma same_graphD:
  assumes "same_graph s s'"
  shows "length (heap s') = length (heap s)" and "nodes s' = nodes s"
    and "lnk s' a = lnk s a" and "name (heap s' ! a) = name (heap s ! a)"
  using assms by (simp_all add: same_graph_def)

lemma basic_child_pre:
  assumes "call_pre n s" and "loop_basic n s seen cur" and "c \<in> set (lnk s n)"
  shows "call_pre c cur"
proof -
  from assms(1) have "graph_ok s" "n < length (heap s)" by (auto simp: call_pre_def tarjan_inv_def)
  with assms(3) have "c < length (heap s)" by (auto dest: graph_okD)
  with loop_basicD(1,2) [OF assms(2)] show ?thesis by (simp add: call_pre_def same_graphD)
qed

lemma stack_index_bound:
  assumes pre: "call_pre n s" and lb: "loop_basic n s seen cur"
    and b: "b \<le> indexCount s" "\<forall>x \<in> set (nodeStack s). b \<le> idx s x"
    and x: "x \<in> set (nodeStack cur)"
  shows "b \<le> idx cur x"
proof -
  note L = loop_basicD [OF lb]
  from pre have inv: "tarjan_inv s" by (simp add: call_pre_def)
  from L(11) obtain new where st: "nodeStack cur = new @ n # nodeStack s"
    and new: "\<forall>y \<in> set new. idx s y = -1 \<and> y \<noteq> n" by blast
  have xv: "x < length (heap s)" "idx cur x \<noteq> -1"
    using tarjan_inv_stack [OF L(1) x] same_graphD(1) [OF L(2)] by simp_all
  show ?thesis
  proof (cases "x = n")
    case True
    with L(6) b(1) show ?thesis by simp
  next
    case False
    show ?thesis
    proof (cases "idx s x = -1")
      case True
      with xv L(10) [of x] b(1) show ?thesis by simp
    next
      case vis: False
      with x st new False have "x \<in> set (nodeStack s)" by auto
      with b(2) have "b \<le> idx s x" by blast
      with L(8) [OF xv(1) False vis] show ?thesis by simp
    qed
  qed
qed

lemma basic_fresh:
  assumes pre: "call_pre n s" and lb: "loop_basic n s seen cur" and c: "c \<in> set (lnk s n)"
    and fresh: "idx cur c = -1" and post: "call_post c cur cur2"
  shows "loop_basic n s (seen @ [c]) (set_lowlink n (min (low cur2 n) (low cur2 c)) cur2)"
    (is "loop_basic n s _ ?t")
proof -
  note L = loop_basicD [OF lb]
  note P = call_postD [OF post]
  from pre have inv: "tarjan_inv s" and n: "n < length (heap s)" by (auto simp: call_pre_def)
  have len: "length (heap cur) = length (heap s)" by (rule same_graphD(1) [OF L(2)])
  have len2: "length (heap cur2) = length (heap s)" using same_graphD(1) [OF P(2)] len by simp
  have cv: "c < length (heap s)"
    using basic_child_pre [OF pre lb c] len by (simp add: call_pre_def)
  have ic0: "0 \<le> indexCount s" "0 \<le> indexCount cur"
    using inv L(1) by (simp_all add: tarjan_inv_def)
  have nvis: "idx cur n \<noteq> -1" using L(6) ic0 by simp
  with fresh have nc: "n \<noteq> c" by auto
  have keep_n: "idx cur2 n = idx cur n" "low cur2 n = low cur n"
    using P(8) [of n] n len nc nvis by simp_all
  have cs: "idx s c = -1" using L(9) [OF cv] fresh by blast
  show ?thesis
  proof (rule loop_basicI)
    show "tarjan_inv ?t" using P(1) by (rule tarjan_inv_set_lowlink)
    show "same_graph s ?t"
      using L(2) P(2) by (auto intro: same_graph_trans same_graph_set_lowlink)
    show "indexCount s < indexCount ?t" using L(3) P(3) by simp
    show "\<exists>extra. stdout ?t = stdout s @ extra" using L(4) P(4) by auto
    show "cyclesDetected ?t" if "cyclesDetected s" using that L(5) P(5) by simp
    show "idx ?t n = indexCount s" using keep_n L(6) by simp
    show "low ?t n \<le> indexCount s" using keep_n L(7) n len2 by simp
  next
    fix a assume a: "a < length (heap s)" "a \<noteq> n" "idx s a \<noteq> -1"
    from L(8) [OF a] have e: "idx cur a = idx s a" "low cur a = low s a" by simp_all
    with a(3) fresh have "a \<noteq> c" by auto
    with P(8) [of a] a e len have "idx cur2 a = idx cur a \<and> low cur2 a = low cur a" by simp
    with e a(2) show "idx ?t a = idx s a \<and> low ?t a = low s a" by simp
  next
    fix a assume a: "a < length (heap s)" "idx s a \<noteq> -1"
    from L(9) [OF a] P(9) [of a] a len show "idx ?t a \<noteq> -1" by simp
  next
    fix a assume a: "a < length (heap s)" "idx s a = -1" "idx ?t a \<noteq> -1"
    then have a2: "idx cur2 a \<noteq> -1" by simp
    show "indexCount s \<le> idx ?t a"
    proof (cases "idx cur a = -1")
      case True
      with P(10) [of a] a(1) a2 len L(3) show ?thesis by simp
    next
      case False
      with fresh have "a \<noteq> c" by auto
      with P(8) [of a] a(1) False len have "idx cur2 a = idx cur a" by simp
      with L(10) [OF a(1,2) False] show ?thesis by simp
    qed
  next
    from L(11) obtain new where st: "nodeStack cur = new @ n # nodeStack s"
      and new: "\<forall>x \<in> set new. idx s x = -1 \<and> x \<noteq> n" by blast
    from P(11) show "\<exists>new. nodeStack ?t = new @ n # nodeStack s \<and> (\<forall>x \<in> set new. idx s x = -1 \<and> x \<noteq> n)"
    proof
      assume "low cur2 c = idx cur2 c \<and> nodeStack cur2 = nodeStack cur"
      with st new show ?thesis by auto
    next
      assume "low cur2 c \<noteq> idx cur2 c \<and>
        (\<exists>new. nodeStack cur2 = new @ c # nodeStack cur \<and> (\<forall>x \<in> set new. idx cur x = -1 \<and> x \<noteq> c))"
      then obtain new2 where st2: "nodeStack cur2 = new2 @ c # nodeStack cur"
        and new2: "\<forall>x \<in> set new2. idx cur x = -1 \<and> x \<noteq> c" by blast
      have "\<forall>x \<in> set new2. idx s x = -1 \<and> x \<noteq> n"
      proof
        fix x assume x: "x \<in> set new2"
        with st2 have "x \<in> set (nodeStack cur2)" by simp
        with tarjan_inv_stack [OF P(1)] len2 have "x < length (heap s)" by simp
        with L(9) [of x] new2 x nvis show "idx s x = -1 \<and> x \<noteq> n" by auto
      qed
      with new cs nc have "\<forall>x \<in> set (new2 @ c # new). idx s x = -1 \<and> x \<noteq> n" by auto
      moreover have "nodeStack ?t = (new2 @ c # new) @ n # nodeStack s" using st st2 by simp
      ultimately show ?thesis by blast
    qed
  next
    fix b assume b: "b \<le> indexCount s" "\<forall>x \<in> set (nodeStack s). b \<le> idx s x"
    have "b \<le> low cur n" using L(12) b by blast
    moreover have "b \<le> low cur2 c"
    proof (rule P(12))
      show "b \<le> indexCount cur" using b(1) L(3) by simp
      show "\<forall>x \<in> set (nodeStack cur). b \<le> idx cur x"
        using stack_index_bound [OF pre lb b] by blast
    qed
    ultimately show "b \<le> low ?t n" using keep_n n len2 by simp
  next
    fix c' assume "c' \<in> set (seen @ [c])"
    then consider "c' \<in> set seen" | "c' = c" by auto
    then show "c' < length (heap s) \<and> idx ?t c' \<noteq> -1"
    proof cases
      case 1
      from L(13) [OF 1] P(9) [of c'] len show ?thesis by simp
    next
      case 2
      with P(6) ic0 cv show ?thesis by simp
    qed
  next
    fix a c' assume a: "a < length (heap s)" "a \<noteq> n" "idx s a = -1" "idx ?t a \<noteq> -1"
      and c': "c' \<in> set (lnk s a)"
    from a have a2: "idx cur2 a \<noteq> -1" by simp
    have c'v: "c' < length (heap s)"
      using inv a(1) c' by (auto simp: tarjan_inv_def dest: graph_okD)
    show "idx ?t c' \<noteq> -1"
    proof (cases "idx cur a = -1")
      case True
      have "c' \<in> set (lnk cur a)" using c' same_graphD(3) [OF L(2)] by simp
      with P(13) [of a c'] a(1) True a2 len show ?thesis by simp
    next
      case False
      from L(14) [OF a(1-3) False c'] P(9) [of c'] c'v len show ?thesis by simp
    qed
  qed
qed

lemma basic_stacked:
  assumes pre: "call_pre n s" and lb: "loop_basic n s seen cur" and c: "c \<in> set (lnk s n)"
    and vis: "idx cur c \<noteq> -1" and stacked: "c \<in> set (nodeStack cur)"
  shows "loop_basic n s (seen @ [c]) (set_lowlink n (min (low cur n) (idx cur c)) cur)"
    (is "loop_basic n s _ ?t")
proof -
  note L = loop_basicD [OF lb]
  from pre have n: "n < length (heap s)" by (simp add: call_pre_def)
  have len: "length (heap cur) = length (heap s)" by (rule same_graphD(1) [OF L(2)])
  have cv: "c < length (heap s)"
    using basic_child_pre [OF pre lb c] len by (simp add: call_pre_def)
  show ?thesis
  proof (rule loop_basicI)
    show "tarjan_inv ?t" using L(1) by (rule tarjan_inv_set_lowlink)
    show "same_graph s ?t" using L(2) by (auto intro: same_graph_trans same_graph_set_lowlink)
    show "indexCount s < indexCount ?t" using L(3) by simp
    show "\<exists>extra. stdout ?t = stdout s @ extra" using L(4) by simp
    show "cyclesDetected ?t" if "cyclesDetected s" using that L(5) by simp
    show "idx ?t n = indexCount s" using L(6) by simp
    show "low ?t n \<le> indexCount s" using L(7) n len by simp
    show "\<exists>new. nodeStack ?t = new @ n # nodeStack s \<and> (\<forall>x \<in> set new. idx s x = -1 \<and> x \<noteq> n)"
      using L(11) by simp
  next
    fix a assume a: "a < length (heap s)" "a \<noteq> n" "idx s a \<noteq> -1"
    with L(8) [OF a] show "idx ?t a = idx s a \<and> low ?t a = low s a" by simp
  next
    fix a assume a: "a < length (heap s)" "idx s a \<noteq> -1"
    with L(9) [OF a] show "idx ?t a \<noteq> -1" by simp
  next
    fix a assume a: "a < length (heap s)" "idx s a = -1" "idx ?t a \<noteq> -1"
    with L(10) [of a] show "indexCount s \<le> idx ?t a" by simp
  next
    fix b assume b: "b \<le> indexCount s" "\<forall>x \<in> set (nodeStack s). b \<le> idx s x"
    have "b \<le> low cur n" using L(12) b by blast
    moreover have "b \<le> idx cur c" using pre lb b stacked by (rule stack_index_bound)
    ultimately show "b \<le> low ?t n" using n len by simp
  next
    fix c' assume "c' \<in> set (seen @ [c])"
    with L(13) [of c'] cv vis show "c' < length (heap s) \<and> idx ?t c' \<noteq> -1" by auto
  next
    fix a c' assume a: "a < length (heap s)" "a \<noteq> n" "idx s a = -1" "idx ?t a \<noteq> -1"
      and c': "c' \<in> set (lnk s a)"
    with L(14) [of a c'] show "idx ?t c' \<noteq> -1" by simp
  qed
qed

lemma basic_closed:
  assumes pre: "call_pre n s" and lb: "loop_basic n s seen cur" and c: "c \<in> set (lnk s n)"
    and vis: "idx cur c \<noteq> -1"
  shows "loop_basic n s (seen @ [c]) cur"
proof -
  note L = loop_basicD [OF lb]
  have len: "length (heap cur) = length (heap s)" by (rule same_graphD(1) [OF L(2)])
  have cv: "c < length (heap s)"
    using basic_child_pre [OF pre lb c] len by (simp add: call_pre_def)
  have seen: "\<And>c'. c' \<in> set (seen @ [c]) \<Longrightarrow> c' < length (heap s) \<and> idx cur c' \<noteq> -1"
    using L(13) cv vis by auto
  show ?thesis
    by (rule loop_basicI [OF L(1-12) seen L(14)])
qed

lemma tarjan_inv_pop:
  assumes "tarjan_inv s" and "heap s' = heap s" and "indexCount s' = indexCount s"
    and "set (nodeStack s') \<subseteq> set (nodeStack s)"
  shows "tarjan_inv s'"
  using assms by (auto simp: tarjan_inv_def graph_ok_def)

lemma finish_result:
  assumes fin: "finish n cur = Inr s'" and st: "nodeStack cur = new @ n # S" and new: "n \<notin> set new"
  shows "heap s' = heap cur" and "indexCount s' = indexCount cur" and "nodes s' = nodes cur"
    and "low cur n \<noteq> idx cur n \<Longrightarrow> s' = cur"
    and "low cur n = idx cur n \<Longrightarrow> nodeStack s' = S"
    and "low cur n = idx cur n \<Longrightarrow> new = [] \<Longrightarrow>
           stdout s' = stdout cur \<and> cyclesDetected s' = cyclesDetected cur"
    and "low cur n = idx cur n \<Longrightarrow> new \<noteq> [] \<Longrightarrow>
           stdout s' = stdout cur @ [''Cyclic dependency detected:'',
                                     chain (map (\<lambda>a. name (heap cur ! a)) (new @ [n]))]
           \<and> cyclesDetected s'"
proof -
  have pop: "pop_cycle n (nodeStack cur) = Some (new @ [n], S)"
    unfolding st using new by (rule pop_cycle_found)
  have len: "1 < length (new @ [n]) \<longleftrightarrow> new \<noteq> []" by (cases new) simp_all
  from fin pop len show "heap s' = heap cur" "indexCount s' = indexCount cur" "nodes s' = nodes cur"
    by (auto simp: finish_def Let_def report_def split: if_splits)
  from fin show "low cur n \<noteq> idx cur n \<Longrightarrow> s' = cur"
    by (simp add: finish_def)
  from fin pop len show "low cur n = idx cur n \<Longrightarrow> nodeStack s' = S"
    by (auto simp: finish_def Let_def report_def split: if_splits)
  from fin pop len show "low cur n = idx cur n \<Longrightarrow> new = [] \<Longrightarrow>
           stdout s' = stdout cur \<and> cyclesDetected s' = cyclesDetected cur"
    by (auto simp: finish_def Let_def)
  from fin pop len show "low cur n = idx cur n \<Longrightarrow> new \<noteq> [] \<Longrightarrow>
           stdout s' = stdout cur @ [''Cyclic dependency detected:'',
                                     chain (map (\<lambda>a. name (heap cur ! a)) (new @ [n]))]
           \<and> cyclesDetected s'"
    by (auto simp: finish_def Let_def report_def)
qed

lemma basic_finish:
  assumes pre: "call_pre n s" and lb: "loop_basic n s (lnk s n) cur"
    and fin: "finish n cur = Inr s'"
  shows "call_post n s s'"
proof -
  note L = loop_basicD [OF lb]
  from L(11) obtain new where st: "nodeStack cur = new @ n # nodeStack s"
    and new: "\<forall>x \<in> set new. idx s x = -1 \<and> x \<noteq> n" by blast
  then have nn: "n \<notin> set new" by blast
  note F = finish_result [OF fin st nn]
  have stack_sub: "set (nodeStack s') \<subseteq> set (nodeStack cur)"
    using F(4,5) st by (cases "low cur n = idx cur n") auto
  have out: "\<exists>extra. stdout s' = stdout cur @ extra"
    using F(4,6,7) by (cases "low cur n = idx cur n"; cases "new = []") auto
  have cyc: "cyclesDetected cur \<Longrightarrow> cyclesDetected s'"
    using F(4,6,7) by (cases "low cur n = idx cur n"; cases "new = []") auto
  show ?thesis
  proof (rule call_postI)
    show "tarjan_inv s'" using L(1) F(1,2) stack_sub by (rule tarjan_inv_pop)
    show "same_graph s s'" using L(2) F(1,3) by (simp add: same_graph_def)
    show "indexCount s < indexCount s'" using L(3) F(2) by simp
    show "\<exists>extra. stdout s' = stdout s @ extra" using L(4) out by auto
    show "cyclesDetected s'" if "cyclesDetected s" using that L(5) cyc by simp
    show "idx s' n = indexCount s" using L(6) F(1) by simp
    show "low s' n \<le> indexCount s" using L(7) F(1) by simp
    show "(low s' n = idx s' n \<and> nodeStack s' = nodeStack s) \<or>
         (low s' n \<noteq> idx s' n \<and>
          (\<exists>new. nodeStack s' = new @ n # nodeStack s \<and> (\<forall>x \<in> set new. idx s x = -1 \<and> x \<noteq> n)))"
    proof (cases "low cur n = idx cur n")
      case True
      with F(1,5) show ?thesis by simp
    next
      case False
      with F(4) st new show ?thesis by auto
    qed
  next
    fix a assume a: "a < length (heap s)" "a \<noteq> n" "idx s a \<noteq> -1"
    with L(8) [OF a] F(1) show "idx s' a = idx s a \<and> low s' a = low s a" by simp
  next
    fix a assume a: "a < length (heap s)" "idx s a \<noteq> -1"
    with L(9) [OF a] F(1) show "idx s' a \<noteq> -1" by simp
  next
    fix a assume a: "a < length (heap s)" "idx s a = -1" "idx s' a \<noteq> -1"
    with L(10) [of a] F(1) show "indexCount s \<le> idx s' a" by simp
  next
    fix b assume b: "b \<le> indexCount s" "\<forall>x \<in> set (nodeStack s). b \<le> idx s x"
    with L(12) [of b] F(1) show "b \<le> low s' n" by simp
  next
    fix a c assume a: "a < length (heap s)" "a = n \<or> idx s a = -1" "idx s' a \<noteq> -1"
      and c: "c \<in> set (lnk s a)"
    show "idx s' c \<noteq> -1"
    proof (cases "a = n")
      case True
      with L(13) [of c] c F(1) show ?thesis by simp
    next
      case False
      with L(14) [of a c] a c F(1) show ?thesis by simp
    qed
  qed
qed

lemma tarjan_basic:
  assumes "call_pre n s" and "tarjan k n s = Some (Inr s')"
  shows "call_post n s s'"
  using assms(2,1)
proof (rule tarjan_rule [where Pre = call_pre and Inv = loop_basic and Post = call_post])
  show "\<And>n s. call_pre n s \<Longrightarrow> loop_basic n s [] (enter n s)" by (rule basic_enter)
  show "\<And>n s seen cur c. call_pre n s \<Longrightarrow> loop_basic n s seen cur \<Longrightarrow> c \<in> set (lnk s n)
          \<Longrightarrow> idx cur c = -1 \<Longrightarrow> call_pre c cur"
    by (rule basic_child_pre)
  show "\<And>n s seen cur c cur2 k'. call_pre n s \<Longrightarrow> loop_basic n s seen cur \<Longrightarrow> c \<in> set (lnk s n)
          \<Longrightarrow> idx cur c = -1 \<Longrightarrow> tarjan k' c cur = Some (Inr cur2) \<Longrightarrow> call_post c cur cur2
          \<Longrightarrow> loop_basic n s (seen @ [c]) (set_lowlink n (min (low cur2 n) (low cur2 c)) cur2)"
    by (rule basic_fresh)
  show "\<And>n s seen cur c. call_pre n s \<Longrightarrow> loop_basic n s seen cur \<Longrightarrow> c \<in> set (lnk s n)
          \<Longrightarrow> idx cur c \<noteq> -1 \<Longrightarrow> c \<in> set (nodeStack cur)
          \<Longrightarrow> loop_basic n s (seen @ [c]) (set_lowlink n (min (low cur n) (idx cur c)) cur)"
    by (rule basic_stacked)
  show "\<And>n s seen cur c. call_pre n s \<Longrightarrow> loop_basic n s seen cur \<Longrightarrow> c \<in> set (lnk s n)
          \<Longrightarrow> idx cur c \<noteq> -1 \<Longrightarrow> c \<notin> set (nodeStack cur) \<Longrightarrow> loop_basic n s (seen @ [c]) cur"
    by (rule basic_closed)
  show "\<And>n s cur s'. call_pre n s \<Longrightarrow> loop_basic n s (lnk s n) cur \<Longrightarrow> finish n cur = Inr s'
          \<Longrightarrow> call_post n s s'"
    by (rule basic_finish)
qed

subsection \<open>Every call returns\<close>

lemma finite_unvisited [simp]: "finite (unvisited s)"
  by (simp add: unvisited_def)

lemma card_unvisited_le: "card (unvisited s) \<le> length (heap s)"
proof -
  have "unvisited s \<subseteq> {..<length (heap s)}" by (auto simp: unvisited_def)
  then have "card (unvisited s) \<le> card {..<length (heap s)}" by (intro card_mono) auto
  then show ?thesis by simp
qed

lemma unvisited_enter:
  assumes "0 \<le> indexCount s" and "n < length (heap s)"
  shows "unvisited (enter n s) = unvisited s - {n}"
  using assms by (auto simp: unvisited_def)

lemma visit_children_total:
  assumes "I seen s"
    and "\<And>c seen s1. I seen s1 \<Longrightarrow> c \<in> set cs
           \<Longrightarrow> \<exists>s2. visit_child call n c s1 = Some (Inr s2) \<and> I (seen @ [c]) s2"
  shows "\<exists>s'. visit_children call n cs s = Some (Inr s') \<and> I (seen @ cs) s'"
  using assms
proof (induction cs arbitrary: s seen)
  case Nil
  then show ?case by simp
next
  case (Cons c cs)
  from Cons.prems(1) Cons.prems(2) [of seen s c] obtain s1
    where c: "visit_child call n c s = Some (Inr s1)" and i: "I (seen @ [c]) s1"
    by auto
  have "\<exists>s'. visit_children call n cs s1 = Some (Inr s') \<and> I ((seen @ [c]) @ cs) s'"
    using i by (rule Cons.IH) (auto intro: Cons.prems(2))
  with c show ?case by simp
qed

lemma finish_returns:
  assumes "n \<in> set (nodeStack s)"
  shows "\<exists>s'. finish n s = Inr s'"
  using pop_cycle_mem [OF assms] by (auto simp: finish_def Let_def)

lemma tarjan_returns:
  assumes "call_pre n s" and "card (unvisited (enter n s)) < k"
  shows "\<exists>s'. tarjan k n s = Some (Inr s')"
  using assms
proof (induction k arbitrary: n s)
  case 0
  then show ?case by simp
next
  case (Suc k)
  note pre = Suc.prems(1)
  from pre have inv: "tarjan_inv s" and n: "n < length (heap s)" by (auto simp: call_pre_def)
  have ic0: "0 \<le> indexCount s" using inv by (simp add: tarjan_inv_def)
  have "\<exists>s2. visit_children (tarjan k) n (lnk s n) (enter n s) = Some (Inr s2)
          \<and> loop_basic n s ([] @ lnk s n) s2"
  proof (rule visit_children_total [where I = "loop_basic n s"])
    show "loop_basic n s [] (enter n s)" using pre by (rule basic_enter)
  next
    fix c seen cur
    assume lb: "loop_basic n s seen cur" and c: "c \<in> set (lnk s n)"
    note L = loop_basicD [OF lb]
    have cpre: "call_pre c cur" using pre lb c by (rule basic_child_pre)
    show "\<exists>cur'. visit_child (tarjan k) n c cur = Some (Inr cur') \<and> loop_basic n s (seen @ [c]) cur'"
    proof (cases "idx cur c = -1")
      case True
      have len: "length (heap cur) = length (heap s)" by (rule same_graphD(1) [OF L(2)])
      from cpre have cv: "c < length (heap cur)" and ic: "0 \<le> indexCount cur"
        by (auto simp: call_pre_def tarjan_inv_def)
      have sub: "unvisited cur \<subseteq> unvisited (enter n s)"
      proof
        fix a assume "a \<in> unvisited cur"
        then have a: "a < length (heap s)" "idx cur a = -1" using len by (auto simp: unvisited_def)
        with L(9) [of a] have "idx s a = -1" by blast
        moreover have "a \<noteq> n" using a(2) L(6) ic0 by auto
        ultimately show "a \<in> unvisited (enter n s)" using a(1) by (simp add: unvisited_def)
      qed
      have "c \<in> unvisited cur" using True cv by (simp add: unvisited_def)
      then have "card (unvisited cur - {c}) < card (unvisited cur)"
        by (intro card_Diff1_less) auto
      also have "\<dots> \<le> card (unvisited (enter n s))" using sub by (intro card_mono) auto
      finally have "card (unvisited (enter c cur)) < k"
        using Suc.prems(2) unvisited_enter [OF ic cv] by simp
      with cpre obtain cur2 where ret: "tarjan k c cur = Some (Inr cur2)"
        using Suc.IH by blast
      with cpre have "call_post c cur cur2" by (rule tarjan_basic)
      with pre lb c True
      have "loop_basic n s (seen @ [c]) (set_lowlink n (min (low cur2 n) (low cur2 c)) cur2)"
        by (rule basic_fresh)
      with True ret show ?thesis by (simp add: visit_child_def)
    next
      case False
      show ?thesis
      proof (cases "c \<in> set (nodeStack cur)")
        case True
        with pre lb c False
        have "loop_basic n s (seen @ [c]) (set_lowlink n (min (low cur n) (idx cur c)) cur)"
          by (rule basic_stacked)
        with False True show ?thesis by (simp add: visit_child_def)
      next
        case nst: False
        from pre lb c False have "loop_basic n s (seen @ [c]) cur" by (rule basic_closed)
        with False nst show ?thesis by (simp add: visit_child_def)
      qed
    qed
  qed
  then obtain s2 where loop: "visit_children (tarjan k) n (lnk s n) (enter n s) = Some (Inr s2)"
    and lb: "loop_basic n s (lnk s n) s2" by auto
  from loop_basicD(11) [OF lb] have "n \<in> set (nodeStack s2)" by auto
  then obtain s' where "finish n s2 = Inr s'" using finish_returns by blast
  with loop show ?case by simp
qed

lemma tarjan_returns_length:
  assumes "call_pre n s" and "length (heap s) \<le> k" and "0 < k"
  shows "\<exists>s'. tarjan k n s = Some (Inr s')"
proof -
  from assms(1) have inv: "tarjan_inv s" and n: "n < length (heap s)" by (auto simp: call_pre_def)
  have ic0: "0 \<le> indexCount s" using inv by (simp add: tarjan_inv_def)
  show ?thesis
  proof (cases "idx s n = -1")
    case True
    then have "n \<in> unvisited s" using n by (simp add: unvisited_def)
    then have "card (unvisited s - {n}) < card (unvisited s)" by (intro card_Diff1_less) auto
    also have "\<dots> \<le> k" using card_unvisited_le [of s] assms(2) by simp
    finally have "card (unvisited (enter n s)) < k" using unvisited_enter [OF ic0 n] by simp
    with assms(1) show ?thesis by (rule tarjan_returns)
  next
    case False
    have "unvisited (enter n s) \<subseteq> {..<length (heap s)} - {n}"
      using ic0 n by (auto simp: unvisited_def)
    then have "card (unvisited (enter n s)) \<le> card ({..<length (heap s)} - {n})"
      by (intro card_mono) auto
    also have "\<dots> < length (heap s)" using n by (simp add: card_Diff_singleton_if)
    finally have "card (unvisited (enter n s)) < k" using assms(2) by simp
    with assms(1) show ?thesis by (rule tarjan_returns)
  qed
qed

subsection \<open>Top-level calls\<close>

lemma closed_visitedD:
  "closed_visited s \<Longrightarrow> a < length (heap s) \<Longrightarrow> idx s a \<noteq> -1 \<Longrightarrow> c \<in> set (lnk s a)
     \<Longrightarrow> idx s c \<noteq> -1"
  by (auto simp: closed_visited_def)

lemma closed_visitedI:
  assumes "\<And>a c. a < length (heap s) \<Longrightarrow> idx s a \<noteq> -1 \<Longrightarrow> c \<in> set (lnk s a) \<Longrightarrow> idx s c \<noteq> -1"
  shows "closed_visited s"
  unfolding closed_visited_def
proof (intro ballI impI)
  fix nd c assume "nd \<in> set (heap s)" and i: "index nd \<noteq> -1" and c: "c \<in> set (links nd)"
  then obtain a where "a < length (heap s)" "nd = heap s ! a" by (auto simp: in_set_conv_nth)
  with i c show "idx s c \<noteq> -1" using assms by blast
qed

lemma top_call:
  assumes top: "top_inv s" and n: "n < length (heap s)" and ret: "tarjan k n s = Some (Inr s')"
  shows "top_inv s'"
proof -
  from top have inv: "tarjan_inv s" and st: "nodeStack s = []" and cl: "closed_visited s"
    by (auto simp: top_inv_def)
  from inv n have pre: "call_pre n s" by (simp add: call_pre_def)
  note P = call_postD [OF tarjan_basic [OF pre ret]]
  have len: "length (heap s') = length (heap s)" by (rule same_graphD(1) [OF P(2)])
  have "indexCount s \<le> low s' n" by (rule P(12)) (simp_all add: st)
  with P(6,7) have "low s' n = idx s' n" by simp
  with P(11) st have st': "nodeStack s' = []" by auto
  have "closed_visited s'"
  proof (rule closed_visitedI)
    fix a c assume a: "a < length (heap s')" "idx s' a \<noteq> -1" and c: "c \<in> set (lnk s' a)"
    then have c': "c \<in> set (lnk s a)" using same_graphD(3) [OF P(2)] by simp
    have cv: "c < length (heap s)"
      using inv a(1) c' len by (auto simp: tarjan_inv_def dest: graph_okD)
    show "idx s' c \<noteq> -1"
    proof (cases "a = n \<or> idx s a = -1")
      case True
      with P(13) [of a c] a c' len show ?thesis by simp
    next
      case False
      with closed_visitedD [OF cl _ _ c'] a(1) len have "idx s c \<noteq> -1" by simp
      with P(9) [OF cv] show ?thesis by simp
    qed
  qed
  with P(1) st' show ?thesis by (simp add: top_inv_def)
qed

lemma set_lowlink_same: "low s n = v \<Longrightarrow> set_lowlink n v s = s"
  by (auto simp: set_lowlink_def)

lemma visit_children_revisit:
  assumes "nodeStack s = [n]" and "low s n = idx s n"
    and "\<forall>c \<in> set cs. idx s c \<noteq> -1"
  shows "visit_children call n cs s = Some (Inr s)"
  using assms(3)
proof (induction cs)
  case Nil
  then show ?case by simp
next
  case (Cons c cs)
  have "visit_child call n c s = Some (Inr s)"
  proof (cases "c = n")
    case True
    with Cons.prems assms(1,2) show ?thesis
      by (simp add: visit_child_def set_lowlink_same)
  next
    case False
    with Cons.prems assms(1) show ?thesis by (simp add: visit_child_def)
  qed
  with Cons show ?case by simp
qed

lemma revisit_call:
  assumes top: "top_inv s" and n: "n < length (heap s)" and vis: "idx s n \<noteq> -1"
  shows "visit_children (tarjan k) n (lnk (enter n s) n) (enter n s) = Some (Inr (enter n s))"
    and "finish n (enter n s) = Inr (reindexed n s)"
    and "tarjan (Suc k) n s = Some (Inr (reindexed n s))"
proof -
  from top have inv: "tarjan_inv s" and st: "nodeStack s = []" and cl: "closed_visited s"
    by (auto simp: top_inv_def)
  have ic0: "0 \<le> indexCount s" using inv by (simp add: tarjan_inv_def)
  have "\<forall>c \<in> set (lnk (enter n s) n). idx (enter n s) c \<noteq> -1"
    using closed_visitedD [OF cl n vis] ic0 by auto
  then show loop: "visit_children (tarjan k) n (lnk (enter n s) n) (enter n s) = Some (Inr (enter n s))"
    using st n by (intro visit_children_revisit) simp_all
  show fin: "finish n (enter n s) = Inr (reindexed n s)"
    using st n by (simp add: finish_def enter_def reindexed_def)
  from loop fin show "tarjan (Suc k) n s = Some (Inr (reindexed n s))"
    by simp
qed

lemma reindexed_fields [simp]:
  "nodeStack (reindexed n s) = nodeStack s"
  "stdout (reindexed n s) = stdout s"
  "cyclesDetected (reindexed n s) = cyclesDetected s"
  "indexCount (reindexed n s) = indexCount s + 1"
  "nodes (reindexed n s) = nodes s"
  "length (heap (reindexed n s)) = length (heap s)"
  by (simp_all add: reindexed_def)

subsection \<open>The include graph of a state\<close>

lemma edges_iff: "(a, b) \<in> edges s \<longleftrightarrow> a < length (heap s) \<and> b \<in> set (lnk s a)"
  by (auto simp: edges_def edge_list_def)

lemma edges_same: "same_graph s s' \<Longrightarrow> edges s' = edges s"
  by (auto simp: edges_iff same_graph_def)

lemma reach_valid:
  assumes "graph_ok s" and "(a, x) \<in> (edges s)\<^sup>*" and "a < length (heap s)"
  shows "x < length (heap s)"
  using assms(2,3)
proof (induction rule: rtrancl_induct)
  case base
  then show ?case .
next
  case (step y z)
  then show ?case using assms(1) by (auto simp: edges_iff dest: graph_okD)
qed

lemma D_enter:
  assumes "D_pre n s"
  shows "D_inv n s [] (enter n s)"
proof -
  from assms have pre: "call_pre n s" by (simp add: D_pre_def)
  then have "n < length (heap s)" by (simp add: call_pre_def)
  with basic_enter [OF pre] show ?thesis by (simp add: D_inv_def)
qed

lemma D_child_pre:
  assumes pre: "D_pre n s" and inv: "D_inv n s seen cur" and c: "c \<in> set (lnk s n)"
    and fresh: "idx cur c = -1"
  shows "D_pre c cur"
proof -
  from pre have cp: "call_pre n s" and nf: "idx s n = -1" and H: "no_cycle_ahead n s"
    by (auto simp: D_pre_def)
  from inv have lb: "loop_basic n s seen cur" and st: "nodeStack cur = n # nodeStack s"
    by (auto simp: D_inv_def)
  note L = loop_basicD [OF lb]
  from cp have tinv: "tarjan_inv s" and n: "n < length (heap s)" by (auto simp: call_pre_def)
  have gok: "graph_ok s" and ic0: "0 \<le> indexCount s" using tinv by (auto simp: tarjan_inv_def)
  have cpc: "call_pre c cur" using cp lb c by (rule basic_child_pre)
  have cv: "c < length (heap s)" using gok n c by (rule graph_okD)
  have E: "edges cur = edges s" using L(2) by (rule edges_same)
  have nc: "(n, c) \<in> edges s" using n c by (simp add: edges_iff)
  have nvis: "idx cur n \<noteq> -1" using L(6) ic0 by simp
  have "no_cycle_ahead c cur"
    unfolding no_cycle_ahead_def E
  proof (intro conjI allI impI)
    fix x assume cx: "(c, x) \<in> (edges s)\<^sup>*"
    with nc have nx: "(n, x) \<in> (edges s)\<^sup>*" by (rule converse_rtrancl_into_rtrancl)
    with H have xs: "x \<notin> set (nodeStack s)" by (simp add: no_cycle_ahead_def)
    have "x \<noteq> n"
    proof
      assume "x = n"
      with cx have "(c, n) \<in> (edges s)\<^sup>*" by simp
      moreover have "(n, c) \<in> (edges s)\<^sup>*" using nc by blast
      moreover have "(n, n) \<in> (edges s)\<^sup>*" by simp
      ultimately have "n = c" using H nf unfolding no_cycle_ahead_def by blast
      with fresh nvis show False by simp
    qed
    with xs show "x \<notin> set (nodeStack cur)" by (simp add: st)
  next
    fix x y
    assume a: "(c, x) \<in> (edges s)\<^sup>* \<and> idx cur x = -1 \<and> (x, y) \<in> (edges s)\<^sup>* \<and> (y, x) \<in> (edges s)\<^sup>*"
    then have nx: "(n, x) \<in> (edges s)\<^sup>*" using nc by (blast intro: converse_rtrancl_into_rtrancl)
    have "x < length (heap s)" using gok a cv by (blast intro: reach_valid)
    with L(9) [of x] a have "idx s x = -1" by blast
    with H nx a show "x = y" unfolding no_cycle_ahead_def by blast
  qed
  with cpc fresh show ?thesis by (simp add: D_pre_def)
qed

lemma D_fresh:
  assumes pre: "D_pre n s" and inv: "D_inv n s seen cur" and c: "c \<in> set (lnk s n)"
    and fresh: "idx cur c = -1" and ret: "tarjan k' c cur = Some (Inr cur2)"
    and post: "D_post c cur cur2"
  shows "D_inv n s (seen @ [c]) (set_lowlink n (min (low cur2 n) (low cur2 c)) cur2)"
proof -
  from pre have cp: "call_pre n s" by (simp add: D_pre_def)
  from inv have lb: "loop_basic n s seen cur" and st: "nodeStack cur = n # nodeStack s"
    and out: "stdout cur = stdout s" "cyclesDetected cur = cyclesDetected s"
    and lown: "low cur n = indexCount s"
    by (auto simp: D_inv_def)
  note L = loop_basicD [OF lb]
  from cp have tinv: "tarjan_inv s" and n: "n < length (heap s)" by (auto simp: call_pre_def)
  have ic0: "0 \<le> indexCount s" using tinv by (auto simp: tarjan_inv_def)
  have cpc: "call_pre c cur" using cp lb c by (rule basic_child_pre)
  then have bp: "call_post c cur cur2" using ret by (rule tarjan_basic)
  note P = call_postD [OF bp]
  have len: "length (heap cur) = length (heap s)" by (rule same_graphD(1) [OF L(2)])
  have len2: "length (heap cur2) = length (heap s)" using same_graphD(1) [OF P(2)] len by simp
  have nvis: "idx cur n \<noteq> -1" using L(6) ic0 by simp
  with fresh have nc: "n \<noteq> c" by auto
  have keep: "low cur2 n = low cur n" using P(8) [of n] n len nc nvis by simp
  from post have dp: "nodeStack cur2 = nodeStack cur" "stdout cur2 = stdout cur"
    "cyclesDetected cur2 = cyclesDetected cur" "low cur2 c = idx cur2 c"
    by (auto simp: D_post_def)
  have "low cur2 c = indexCount cur" using dp(4) P(6) by simp
  with L(3) keep lown have m: "min (low cur2 n) (low cur2 c) = indexCount s" by simp
  have "loop_basic n s (seen @ [c]) (set_lowlink n (min (low cur2 n) (low cur2 c)) cur2)"
    using cp lb c fresh bp by (rule basic_fresh)
  then show ?thesis using dp st out n len2 unfolding m by (simp add: D_inv_def)
qed

lemma D_stacked:
  assumes pre: "D_pre n s" and inv: "D_inv n s seen cur" and c: "c \<in> set (lnk s n)"
    and vis: "idx cur c \<noteq> -1" and stacked: "c \<in> set (nodeStack cur)"
  shows "D_inv n s (seen @ [c]) (set_lowlink n (min (low cur n) (idx cur c)) cur)"
proof -
  from pre have cp: "call_pre n s" and H: "no_cycle_ahead n s" by (auto simp: D_pre_def)
  from inv have lb: "loop_basic n s seen cur" and st: "nodeStack cur = n # nodeStack s"
    and out: "stdout cur = stdout s" "cyclesDetected cur = cyclesDetected s"
    and lown: "low cur n = indexCount s"
    by (auto simp: D_inv_def)
  note L = loop_basicD [OF lb]
  from cp have n: "n < length (heap s)" by (auto simp: call_pre_def)
  have len: "length (heap cur) = length (heap s)" by (rule same_graphD(1) [OF L(2)])
  have "(n, c) \<in> (edges s)\<^sup>*" using n c by (auto simp: edges_iff)
  with H have "c \<notin> set (nodeStack s)" by (simp add: no_cycle_ahead_def)
  with stacked st have "c = n" by simp
  with L(6) lown have m: "min (low cur n) (idx cur c) = indexCount s" by simp
  have "loop_basic n s (seen @ [c]) (set_lowlink n (min (low cur n) (idx cur c)) cur)"
    using cp lb c vis stacked by (rule basic_stacked)
  then show ?thesis using st out n len unfolding m by (simp add: D_inv_def)
qed

lemma D_closed:
  assumes pre: "D_pre n s" and inv: "D_inv n s seen cur" and c: "c \<in> set (lnk s n)"
    and vis: "idx cur c \<noteq> -1"
  shows "D_inv n s (seen @ [c]) cur"
proof -
  from pre have cp: "call_pre n s" by (simp add: D_pre_def)
  from inv have lb: "loop_basic n s seen cur" by (simp add: D_inv_def)
  have "loop_basic n s (seen @ [c]) cur" using cp lb c vis by (rule basic_closed)
  with inv show ?thesis by (simp add: D_inv_def)
qed

lemma D_finish:
  assumes pre: "D_pre n s" and inv: "D_inv n s (lnk s n) cur" and fin: "finish n cur = Inr s'"
  shows "D_post n s s'"
proof -
  from inv have lb: "loop_basic n s (lnk s n) cur" and st: "nodeStack cur = [] @ n # nodeStack s"
    and out: "stdout cur = stdout s" "cyclesDetected cur = cyclesDetected s"
    and lown: "low cur n = indexCount s"
    by (auto simp: D_inv_def)
  note L = loop_basicD [OF lb]
  have eq: "low cur n = idx cur n" using lown L(6) by simp
  have nn: "n \<notin> set []" by simp
  note F = finish_result [OF fin st nn]
  from F(1) F(5) [OF eq] F(6) [OF eq] eq out show ?thesis by (simp add: D_post_def)
qed

lemma tarjan_no_cycle_ahead:
  assumes "D_pre n s" and "tarjan k n s = Some (Inr s')"
  shows "D_post n s s'"
  using assms(2,1)
proof (rule tarjan_rule [where Pre = D_pre and Inv = D_inv and Post = D_post])
  show "\<And>n s. D_pre n s \<Longrightarrow> D_inv n s [] (enter n s)" by (rule D_enter)
  show "\<And>n s seen cur c. D_pre n s \<Longrightarrow> D_inv n s seen cur \<Longrightarrow> c \<in> set (lnk s n)
          \<Longrightarrow> idx cur c = -1 \<Longrightarrow> D_pre c cur"
    by (rule D_child_pre)
  show "\<And>n s seen cur c cur2 k'. D_pre n s \<Longrightarrow> D_inv n s seen cur \<Longrightarrow> c \<in> set (lnk s n)
          \<Longrightarrow> idx cur c = -1 \<Longrightarrow> tarjan k' c cur = Some (Inr cur2) \<Longrightarrow> D_post c cur cur2
          \<Longrightarrow> D_inv n s (seen @ [c]) (set_lowlink n (min (low cur2 n) (low cur2 c)) cur2)"
    by (rule D_fresh)
  show "\<And>n s seen cur c. D_pre n s \<Longrightarrow> D_inv n s seen cur \<Longrightarrow> c \<in> set (lnk s n)
          \<Longrightarrow> idx cur c \<noteq> -1 \<Longrightarrow> c \<in> set (nodeStack cur)
          \<Longrightarrow> D_inv n s (seen @ [c]) (set_lowlink n (min (low cur n) (idx cur c)) cur)"
    by (rule D_stacked)
  show "\<And>n s seen cur c. D_pre n s \<Longrightarrow> D_inv n s seen cur \<Longrightarrow> c \<in> set (lnk s n)
          \<Longrightarrow> idx cur c \<noteq> -1 \<Longrightarrow> c \<notin> set (nodeStack cur) \<Longrightarrow> D_inv n s (seen @ [c]) cur"
    by (rule D_closed)
  show "\<And>n s cur s'. D_pre n s \<Longrightarrow> D_inv n s (lnk s n) cur \<Longrightarrow> finish n cur = Inr s'
          \<Longrightarrow> D_post n s s'"
    by (rule D_finish)
qed

lemma unstarted_append_link: "unstarted s \<Longrightarrow> unstarted (append_link self t s)"
proof -
  assume u: "unstarted s"
  show ?thesis
  proof (cases "self < length (heap s)")
    case False
    then have "append_link self t s = s" by (simp add: append_link_def list_update_beyond)
    with u show ?thesis by simp
  next
    case True
    let ?x = "(heap s ! self)\<lparr>links := links (heap s ! self) @ [t]\<rparr>"
    have "index ?x = -1" using u True by (simp add: unstarted_def)
    moreover have "set ((heap s)[self := ?x]) \<subseteq> insert ?x (set (heap s))"
      by (rule set_update_subset_insert)
    ultimately have "\<forall>nd \<in> set ((heap s)[self := ?x]). index nd = -1"
      using u by (auto simp: unstarted_def)
    with u show ?thesis by (simp add: unstarted_def append_link_def)
  qed
qed

lemma unstarted_new_node: "unstarted s \<Longrightarrow> unstarted (snd (new_node n s))"
  by (auto simp: unstarted_def new_node_def Node_def)

lemma unstarted_addLink: "unstarted s \<Longrightarrow> unstarted (addLink self n s)"
  by (cases rule: addLink_cases [where n = n and s = s and self = self])
     (simp_all add: unstarted_append_link unstarted_new_node)

lemma unstarted_addLinks: "unstarted s \<Longrightarrow> addLinks self incs s = Inr s' \<Longrightarrow> unstarted s'"
  by (induction incs arbitrary: s) (auto split: option.splits dest: unstarted_addLink)

lemma unstarted_scanFile: "unstarted s \<Longrightarrow> scanFile filename input s = Inr s' \<Longrightarrow> unstarted s'"
  by (cases rule: scanFile_cases [where filename = filename and s = s and input = input])
     (auto dest: unstarted_addLinks unstarted_new_node)

lemma unstarted_constructGraph:
  "unstarted s \<Longrightarrow> constructGraph target s = Inr s' \<Longrightarrow> unstarted s'"
proof (induction target arbitrary: s)
  case Nil
  then show ?case by simp
next
  case (Cons e rest)
  obtain filename content where e: "e = (filename, content)" by (cases e)
  show ?case
  proof (cases "isValidFile filename")
    case False
    with Cons e show ?thesis by simp
  next
    case True
    with Cons.prems e obtain input s1 where "content = Some input"
      and s1: "scanFile filename input s = Inr s1" and rest: "constructGraph rest s1 = Inr s'"
      by (auto split: option.splits sum.splits)
    from Cons.prems(1) s1 have "unstarted s1" by (rule unstarted_scanFile)
    then show ?thesis using rest by (rule Cons.IH)
  qed
qed

lemma unstarted_initial: "unstarted initial_state"
  by (simp add: unstarted_def initial_state_def)

lemma registry_graph_ok: "registry_ok s \<Longrightarrow> graph_ok s"
  by (auto simp: registry_ok_def graph_ok_def)

lemma unstarted_top_inv:
  assumes "registry_ok s" and "unstarted s"
  shows "top_inv s"
  using assms registry_graph_ok [OF assms(1)]
  by (auto simp: top_inv_def tarjan_inv_def closed_visited_def unstarted_def)

lemma constructGraph_top_inv:
  assumes "constructGraph target initial_state = Inr g"
  shows "registry_ok g" and "unstarted g" and "top_inv g"
proof -
  show r: "registry_ok g" using registry_ok_initial assms by (rule registry_ok_constructGraph)
  show u: "unstarted g" using unstarted_initial assms by (rule unstarted_constructGraph)
  from r u show "top_inv g" by (rule unstarted_top_inv)
qed

lemma tarjan_all_total:
  assumes "I s"
    and "\<And>n s1. I s1 \<Longrightarrow> n \<in> set ns \<Longrightarrow> \<exists>s2. tarjan k n s1 = Some (Inr s2) \<and> I s2"
  shows "\<exists>s'. tarjan_all k ns s = Some (Inr s') \<and> I s'"
  using assms
proof (induction ns arbitrary: s)
  case Nil
  then show ?case by simp
next
  case (Cons n ns)
  from Cons.prems(1) Cons.prems(2) [of s n] obtain s1
    where c: "tarjan k n s = Some (Inr s1)" and i: "I s1"
    by auto
  have "\<exists>s'. tarjan_all k ns s1 = Some (Inr s') \<and> I s'"
    using i by (rule Cons.IH) (auto intro: Cons.prems(2))
  with c show ?case by simp
qed

lemma tarjan_all_invariant:
  assumes "tarjan_all k ns s = Some (Inr s')" and "I s"
    and "\<And>n s1 s2. I s1 \<Longrightarrow> n \<in> set ns \<Longrightarrow> tarjan k n s1 = Some (Inr s2) \<Longrightarrow> I s2"
  shows "I s'"
  using assms
proof (induction ns arbitrary: s)
  case Nil
  then show ?case by simp
next
  case (Cons n ns)
  from Cons.prems(1) obtain s1 where c: "tarjan k n s = Some (Inr s1)"
    and r: "tarjan_all k ns s1 = Some (Inr s')"
    by (auto split: option.splits sum.splits)
  have "I s1" using Cons.prems(2) c by (auto intro: Cons.prems(3))
  with r show ?case by (rule Cons.IH) (auto intro: Cons.prems(3))
qed

lemma quiet_call:
  assumes top: "top_inv s" and n: "n < length (heap s)"
    and scc: "\<forall>x y. (x, y) \<in> (edges s)\<^sup>* \<and> (y, x) \<in> (edges s)\<^sup>* \<longrightarrow> x = y"
    and fuel: "length (heap s) \<le> k"
  shows "\<exists>s'. tarjan k n s = Some (Inr s') \<and> quiet s s'"
proof -
  from top have inv: "tarjan_inv s" and st: "nodeStack s = []" by (auto simp: top_inv_def)
  from inv n have pre: "call_pre n s" by (simp add: call_pre_def)
  from n fuel have k0: "0 < k" by simp
  from pre fuel k0 obtain s' where ret: "tarjan k n s = Some (Inr s')"
    using tarjan_returns_length by blast
  have top': "top_inv s'" using top n ret by (rule top_call)
  have sg: "same_graph s s'" using call_postD(2) [OF tarjan_basic [OF pre ret]] .
  have "stdout s' = stdout s \<and> cyclesDetected s' = cyclesDetected s"
  proof (cases "idx s n = -1")
    case True
    have "no_cycle_ahead n s" using scc st by (auto simp: no_cycle_ahead_def)
    with pre True have "D_pre n s" by (simp add: D_pre_def)
    then have "D_post n s s'" using ret by (rule tarjan_no_cycle_ahead)
    then show ?thesis by (simp add: D_post_def)
  next
    case False
    from k0 obtain k' where k: "k = Suc k'" by (cases k) auto
    have "tarjan k n s = Some (Inr (reindexed n s))"
      unfolding k by (rule revisit_call(3) [OF top n False])
    with ret have "s' = reindexed n s" by simp
    then show ?thesis by simp
  qed
  with ret top' sg show ?thesis by (auto simp: quiet_def)
qed

lemma quiet_loop:
  assumes top: "top_inv s" and ns: "\<forall>n \<in> set ns. n < length (heap s)"
    and scc: "\<forall>x y. (x, y) \<in> (edges s)\<^sup>* \<and> (y, x) \<in> (edges s)\<^sup>* \<longrightarrow> x = y"
    and fuel: "length (heap s) \<le> k"
  shows "\<exists>s'. tarjan_all k ns s = Some (Inr s') \<and> quiet s s'"
proof (rule tarjan_all_total [where I = "quiet s"])
  show "quiet s s" using top by (simp add: quiet_def)
next
  fix n s1 assume q: "quiet s s1" and n: "n \<in> set ns"
  then have top1: "top_inv s1" and sg: "same_graph s s1" by (auto simp: quiet_def)
  have len: "length (heap s1) = length (heap s)" using sg by (rule same_graphD(1))
  have E: "edges s1 = edges s" using sg by (rule edges_same)
  have "\<exists>s2. tarjan k n s1 = Some (Inr s2) \<and> quiet s1 s2"
    using top1 ns n scc fuel by (intro quiet_call) (simp_all add: len E)
  then obtain s2 where ret: "tarjan k n s1 = Some (Inr s2)" and q2: "quiet s1 s2" by blast
  from q q2 have "quiet s s2" by (auto simp: quiet_def intro: same_graph_trans)
  with ret show "\<exists>s2. tarjan k n s1 = Some (Inr s2) \<and> quiet s s2" by blast
qed

lemma quiet_analyse:
  assumes reg: "registry_ok g" and un: "unstarted g"
    and scc: "\<forall>x y. (x, y) \<in> (edges g)\<^sup>* \<and> (y, x) \<in> (edges g)\<^sup>* \<longrightarrow> x = y"
    and fuel: "length (heap g) \<le> fuel"
  shows "\<exists>s'. analyse fuel g = Some (Inr s') \<and> \<not> cyclesDetected s' \<and>
           stdout s' = [''No cyclic dependencies detected.'']"
proof -
  have top: "top_inv g" using reg un by (rule unstarted_top_inv)
  have ns: "\<forall>n \<in> set (nodes g). n < length (heap g)" using reg by (simp add: registry_ok_def)
  from quiet_loop [OF top ns scc fuel] obtain s1
    where ret: "tarjan_all fuel (nodes g) g = Some (Inr s1)" and q: "quiet g s1" by blast
  from q un have "stdout s1 = []" "\<not> cyclesDetected s1" by (auto simp: quiet_def unstarted_def)
  then have "\<not> cyclesDetected (summary s1)"
    "stdout (summary s1) = [''No cyclic dependencies detected.'']"
    by (simp_all add: summary_def)
  with ret show ?thesis by (simp add: analyse_def)
qed

lemma rtrancl_sub_Id: "(x, y) \<in> r\<^sup>* \<Longrightarrow> r \<subseteq> Id \<Longrightarrow> x = y"
  by (induction rule: rtrancl_induct) auto

lemma index_mono:
  assumes pre: "call_pre n s" and ret: "tarjan k n s = Some (Inr s')" and a: "a < length (heap s)"
  shows "idx s a \<le> idx s' a"
proof -
  note P = call_postD [OF tarjan_basic [OF pre ret]]
  from pre have inv: "tarjan_inv s" by (simp add: call_pre_def)
  have ic0: "0 \<le> indexCount s" using inv by (simp add: tarjan_inv_def)
  have b: "idx s a < indexCount s" using inv a by (rule tarjan_inv_index)
  show ?thesis
  proof (cases "a = n")
    case True
    with P(6) b show ?thesis by simp
  next
    case False
    show ?thesis
    proof (cases "idx s a = -1")
      case True
      with P(10) [OF a] ic0 show ?thesis by (cases "idx s' a = -1") simp_all
    next
      case vis: False
      with P(8) [OF a False] show ?thesis by simp
    qed
  qed
qed

lemma progressed_call:
  assumes top: "top_inv s" and n: "n < length (heap s)" and ret: "tarjan k n s = Some (Inr s')"
  shows "progressed s s'" and "idx s' n = indexCount s" and "indexCount s < indexCount s'"
proof -
  from top have inv: "tarjan_inv s" by (simp add: top_inv_def)
  with n have pre: "call_pre n s" by (simp add: call_pre_def)
  note P = call_postD [OF tarjan_basic [OF pre ret]]
  show "idx s' n = indexCount s" by (rule P(6))
  show "indexCount s < indexCount s'" by (rule P(3))
  have "top_inv s'" using top n ret by (rule top_call)
  moreover have "length (heap s') = length (heap s)" by (rule same_graphD(1) [OF P(2)])
  moreover have "\<forall>a < length (heap s). idx s a \<le> idx s' a"
    using index_mono [OF pre ret] by blast
  ultimately show "progressed s s'" using P(3) by (simp add: progressed_def)
qed

lemma progressed_trans: "progressed a b \<Longrightarrow> progressed b c \<Longrightarrow> progressed a c"
  by (fastforce simp: progressed_def)

lemma tarjan_inv_finish:
  assumes "tarjan_inv t" and "finish m t = Inr t'"
  shows "tarjan_inv t'"
  using assms(2)
proof (cases rule: finish_cases)
  case unfinished
  with assms(1) show ?thesis by simp
next
  case (single cycle rest)
  from pop_cycle_split [OF single(2)] have "set rest \<subseteq> set (nodeStack t)" by auto
  then show ?thesis unfolding single(4) by (intro tarjan_inv_pop [OF assms(1)]) simp_all
next
  case (reported cycle rest)
  from pop_cycle_split [OF reported(2)] have "set rest \<subseteq> set (nodeStack t)" by auto
  then show ?thesis unfolding reported(4) by (intro tarjan_inv_pop [OF assms(1)]) simp_all
qed

lemma main_loop_top_inv:
  assumes g: "constructGraph target initial_state = Inr g" and ns: "set ns \<subseteq> set (nodes g)"
    and loop: "tarjan_all k ns g = Some (Inr s)"
  shows "top_inv s \<and> length (heap s) = length (heap g)"
  using loop
proof (rule tarjan_all_invariant)
  show "top_inv g \<and> length (heap g) = length (heap g)"
    using constructGraph_top_inv(3) [OF g] by simp
next
  fix n s1 s2
  assume i: "top_inv s1 \<and> length (heap s1) = length (heap g)" and n: "n \<in> set ns"
    and ret: "tarjan k n s1 = Some (Inr s2)"
  have "n < length (heap g)" using constructGraph_top_inv(1) [OF g] ns n
    by (auto simp: registry_ok_def)
  with i have nv: "n < length (heap s1)" by simp
  from progressed_call(1) [OF _ nv ret] i
  show "top_inv s2 \<and> length (heap s2) = length (heap g)" by (simp add: progressed_def)
qed

section \<open>The claims\<close>

text \<open>
  C1. The claim: in every graph, a node with an edge to itself is reported as a
  single-node cycle. The code at the header \<open>a.hpp\<close> whose text is the directive
  \<open>#include "a.hpp"\<close>: the node is its own child and is on the stack, its lowlink stays
  equal to its index, it is popped alone, and a list \<open>cycle\<close> of length one is not
  reported (line 161); the only output is the summary line.
\<close>

theorem self_include_not_reported:
  "main 1 [(''a.hpp'', Some (include_directive ''a.hpp''))] =
     Some (Inr \<lparr>heap = [\<lparr>name = ''a.hpp'', links = [0], index = 0, lowlink = 0\<rparr>],
                nodes = [0], nodeStack = [], indexCount = 1, cyclesDetected = False,
                stdout = [''No cyclic dependencies detected.'']\<rparr>)"
  by code_simp

text \<open>
  C1 as amended. For every graph in which a node has an edge to itself and no cycle
  passes through two different nodes, the analysis returns, reports no cycle, and prints
  the summary line only: a node whose only cycle is its self-inclusion is a single-node
  component, which is popped without a report.
\<close>

theorem self_loops_not_reported:
  assumes "registry_ok g" and "unstarted g" and "(n, n) \<in> edges g"
    and "\<forall>x y. (x, y) \<in> (edges g)\<^sup>* \<and> (y, x) \<in> (edges g)\<^sup>* \<longrightarrow> x = y"
    and "length (heap g) \<le> fuel"
  shows "\<exists>s'. analyse fuel g = Some (Inr s') \<and> \<not> cyclesDetected s' \<and>
           stdout s' = [''No cyclic dependencies detected.'']"
  using assms(1,2,4,5) by (rule quiet_analyse)

theorem self_loops_not_reported_witness:
  "registry_ok self_include \<and> unstarted self_include \<and> (0, 0) \<in> edges self_include \<and>
   length (heap self_include) \<le> 1 \<and>
   analyse 1 self_include =
     Some (Inr \<lparr>heap = [\<lparr>name = ''a.hpp'', links = [0], index = 0, lowlink = 0\<rparr>],
                nodes = [0], nodeStack = [], indexCount = 1, cyclesDetected = False,
                stdout = [''No cyclic dependencies detected.'']\<rparr>)"
proof -
  have h1: "registry_ok self_include" by code_simp
  have h2: "unstarted self_include" by code_simp
  have e: "edges self_include = {(0, 0)}" by (auto simp: edges_iff self_include_def)
  then have h3: "(0, 0) \<in> edges self_include" by simp
  have sub: "{(0::nat, 0::nat)} \<subseteq> Id" by simp
  have h4: "\<forall>x y. (x, y) \<in> (edges self_include)\<^sup>* \<and> (y, x) \<in> (edges self_include)\<^sup>* \<longrightarrow> x = y"
  proof (intro allI impI)
    fix x y assume "(x, y) \<in> (edges self_include)\<^sup>* \<and> (y, x) \<in> (edges self_include)\<^sup>*"
    then have "(x, y) \<in> {(0::nat, 0::nat)}\<^sup>*" by (simp only: e)
    then show "x = y" using sub by (rule rtrancl_sub_Id)
  qed
  have h5: "length (heap self_include) \<le> 1" by (simp add: self_include_def)
  have r: "analyse 1 self_include =
     Some (Inr \<lparr>heap = [\<lparr>name = ''a.hpp'', links = [0], index = 0, lowlink = 0\<rparr>],
                nodes = [0], nodeStack = [], indexCount = 1, cyclesDetected = False,
                stdout = [''No cyclic dependencies detected.'']\<rparr>)" by code_simp
  from self_loops_not_reported [OF h1 h2 h3 h4 h5] h1 h2 h3 h5 r show ?thesis by simp
qed

text \<open>
  C2. The claim: a matched include directive in which the filename pattern matches nowhere
  contributes no edge and raises nothing. The code at such an input: the header \<open>a.h\<close>
  holds the directive \<open>#include "list.tcc"\<close>; \<open>re.search\<close> finds no match, \<open>.group()\<close>
  raises \<open>AttributeError\<close>, and neither \<open>constructGraph\<close> nor \<open>main\<close> completes.
\<close>

theorem directive_without_filename_raises:
  "constructGraph [(''a.h'', Some (include_directive ''list.tcc''))] initial_state
     = Inl AttributeError
   \<and> main fuel [(''a.h'', Some (include_directive ''list.tcc''))] = Some (Inl AttributeError)"
proof -
  have "constructGraph [(''a.h'', Some (include_directive ''list.tcc''))] initial_state
          = Inl AttributeError"
    by code_simp
  then show ?thesis by (simp add: main_def)
qed

text \<open>
  C3. For every graph with no directed cycle (self-loops included), as \<open>constructGraph\<close>
  leaves it, the analysis over all nodes returns, detects no cycle, and its whole output
  is the one line \<open>No cyclic dependencies detected.\<close>; and \<open>main\<close> on a directory from
  which this graph is built is that analysis.
\<close>

theorem no_cycle_no_report:
  assumes "registry_ok g" and "unstarted g" and "acyclic (edges g)"
    and "length (heap g) \<le> fuel"
  shows "(\<exists>s'. analyse fuel g = Some (Inr s') \<and> \<not> cyclesDetected s' \<and>
            stdout s' = [''No cyclic dependencies detected.''])
       \<and> (\<forall>target. constructGraph target initial_state = Inr g \<longrightarrow>
            main fuel target = analyse fuel g)"
proof -
  have "\<forall>x y. (x, y) \<in> (edges g)\<^sup>* \<and> (y, x) \<in> (edges g)\<^sup>* \<longrightarrow> x = y"
  proof (intro allI impI)
    fix x y assume a: "(x, y) \<in> (edges g)\<^sup>* \<and> (y, x) \<in> (edges g)\<^sup>*"
    show "x = y"
    proof (rule ccontr)
      assume "x \<noteq> y"
      with a have "(x, y) \<in> (edges g)\<^sup>+" by (auto dest: rtranclD)
      with a have "(x, x) \<in> (edges g)\<^sup>+" by auto
      with assms(3) show False by (simp add: acyclic_def)
    qed
  qed
  with assms(1,2) have "\<exists>s'. analyse fuel g = Some (Inr s') \<and> \<not> cyclesDetected s' \<and>
            stdout s' = [''No cyclic dependencies detected.'']"
    using assms(4) by (rule quiet_analyse)
  then show ?thesis by (simp add: main_def)
qed

theorem no_cycle_no_report_witness:
  "registry_ok two_headers \<and> unstarted two_headers \<and> acyclic (edges two_headers) \<and>
   length (heap two_headers) \<le> 2 \<and>
   analyse 2 two_headers =
     Some (Inr \<lparr>heap = [\<lparr>name = ''a.h'', links = [1], index = 0, lowlink = 0\<rparr>,
                       \<lparr>name = ''b.h'', links = [], index = 2, lowlink = 2\<rparr>],
                nodes = [0, 1], nodeStack = [], indexCount = 3, cyclesDetected = False,
                stdout = [''No cyclic dependencies detected.'']\<rparr>) \<and>
   constructGraph [(''a.h'', Some (include_directive ''b.h'')), (''b.h'', Some [])] initial_state
     = Inr two_headers \<and>
   main 2 [(''a.h'', Some (include_directive ''b.h'')), (''b.h'', Some [])]
     = analyse 2 two_headers"
proof -
  have h1: "registry_ok two_headers" by code_simp
  have h2: "unstarted two_headers" by code_simp
  have "edges two_headers = {(0, 1)}" by (auto simp: edges_iff two_headers_def less_Suc_eq)
  moreover have "acyclic ({} :: (nat \<times> nat) set)" by (simp add: acyclic_def)
  ultimately have h3: "acyclic (edges two_headers)" by (simp add: acyclic_insert)
  have h4: "length (heap two_headers) \<le> 2" by (simp add: two_headers_def)
  have e: "analyse 2 two_headers =
     Some (Inr \<lparr>heap = [\<lparr>name = ''a.h'', links = [1], index = 0, lowlink = 0\<rparr>,
                       \<lparr>name = ''b.h'', links = [], index = 2, lowlink = 2\<rparr>],
                nodes = [0, 1], nodeStack = [], indexCount = 3, cyclesDetected = False,
                stdout = [''No cyclic dependencies detected.'']\<rparr>)" by code_simp
  have c: "constructGraph [(''a.h'', Some (include_directive ''b.h'')), (''b.h'', Some [])] initial_state
     = Inr two_headers" by code_simp
  from no_cycle_no_report [OF h1 h2 h3 h4] h1 h2 h3 h4 e c show ?thesis by simp
qed

text \<open>
  C5. The claim: the loop of \<open>main\<close> starts a traversal at a node only if the node has not
  been visited. The code on the headers \<open>a.h\<close>, which includes \<open>b.h\<close>, and \<open>b.h\<close>: the
  call on \<open>a.h\<close> visits \<open>b.h\<close> and gives it index 1; the loop then calls \<open>tarjan\<close> on
  \<open>b.h\<close> all the same, which gives it index 2 and moves the counter to 3 for two nodes.
\<close>

theorem visited_node_is_root_again:
  "tarjan 2 0 two_headers = Some (Inr after_first_root) \<and>
   index (heap after_first_root ! 1) = 1 \<and>
   tarjan_all 2 [1] after_first_root =
     Some (Inr \<lparr>heap = [\<lparr>name = ''a.h'', links = [1], index = 0, lowlink = 0\<rparr>,
                       \<lparr>name = ''b.h'', links = [], index = 2, lowlink = 2\<rparr>],
                nodes = [0, 1], nodeStack = [], indexCount = 3, cyclesDetected = False,
                stdout = []\<rparr>) \<and>
   tarjan_all 2 (nodes two_headers) two_headers =
     Some (Inr \<lparr>heap = [\<lparr>name = ''a.h'', links = [1], index = 0, lowlink = 0\<rparr>,
                       \<lparr>name = ''b.h'', links = [], index = 2, lowlink = 2\<rparr>],
                nodes = [0, 1], nodeStack = [], indexCount = 3, cyclesDetected = False,
                stdout = []\<rparr>)"
  by code_simp

text \<open>
  C5 as amended. The loop of \<open>main\<close> starts a traversal at every node of its list, whether
  or not the node has been visited: from every state between two top-level calls, the
  loop over any list of nodes returns with the stack empty, the counter has grown by at
  least the length of the list, and every node of the list has an index that is not
  below the counter's value at the start of the loop.
\<close>

theorem every_node_is_root:
  assumes "top_inv s" and "\<forall>n \<in> set ns. n < length (heap s)" and "length (heap s) \<le> k"
  shows "\<exists>s'. tarjan_all k ns s = Some (Inr s') \<and> nodeStack s' = [] \<and>
           indexCount s + int (length ns) \<le> indexCount s' \<and>
           (\<forall>n \<in> set ns. indexCount s \<le> idx s' n)"
proof -
  have "\<exists>s'. tarjan_all k ns s = Some (Inr s') \<and> progressed s s' \<and>
           indexCount s + int (length ns) \<le> indexCount s' \<and>
           (\<forall>n \<in> set ns. indexCount s \<le> idx s' n)"
    using assms
  proof (induction ns arbitrary: s)
    case Nil
    then show ?case by (simp add: progressed_def)
  next
    case (Cons n ns)
    from Cons.prems have n: "n < length (heap s)" and inv: "tarjan_inv s"
      by (auto simp: top_inv_def)
    then have pre: "call_pre n s" by (simp add: call_pre_def)
    from n Cons.prems(3) have "0 < k" by simp
    with pre Cons.prems(3) obtain s1 where ret: "tarjan k n s = Some (Inr s1)"
      using tarjan_returns_length by blast
    note C = progressed_call [OF Cons.prems(1) n ret]
    from C(1) have top1: "top_inv s1" and len: "length (heap s1) = length (heap s)"
      by (auto simp: progressed_def)
    have "\<exists>s'. tarjan_all k ns s1 = Some (Inr s') \<and> progressed s1 s' \<and>
           indexCount s1 + int (length ns) \<le> indexCount s' \<and>
           (\<forall>n \<in> set ns. indexCount s1 \<le> idx s' n)"
      using top1 Cons.prems(2,3) len by (intro Cons.IH) simp_all
    then obtain s' where all: "tarjan_all k ns s1 = Some (Inr s')" and p: "progressed s1 s'"
      and ic: "indexCount s1 + int (length ns) \<le> indexCount s'"
      and ix: "\<forall>n \<in> set ns. indexCount s1 \<le> idx s' n" by blast
    from p n len have "idx s1 n \<le> idx s' n" by (simp add: progressed_def)
    with C(2) have "indexCount s \<le> idx s' n" by simp
    moreover have "\<forall>m \<in> set ns. indexCount s \<le> idx s' m" using ix C(3) by fastforce
    moreover have "indexCount s + int (length (n # ns)) \<le> indexCount s'" using ic C(3) by simp
    moreover have "progressed s s'" using C(1) p by (rule progressed_trans)
    ultimately show ?case using ret all by simp
  qed
  then show ?thesis by (auto simp: progressed_def top_inv_def)
qed

theorem every_node_is_root_witness:
  "top_inv after_first_root \<and> 1 < length (heap after_first_root) \<and>
   length (heap after_first_root) \<le> 2 \<and>
   index (heap after_first_root ! 1) = 1 \<and>
   tarjan_all 2 [1] after_first_root =
     Some (Inr \<lparr>heap = [\<lparr>name = ''a.h'', links = [1], index = 0, lowlink = 0\<rparr>,
                       \<lparr>name = ''b.h'', links = [], index = 2, lowlink = 2\<rparr>],
                nodes = [0, 1], nodeStack = [], indexCount = 3, cyclesDetected = False,
                stdout = []\<rparr>) \<and>
   indexCount after_first_root + int (length [1::nat]) \<le> 3"
proof -
  have h1: "top_inv after_first_root" by code_simp
  have v: "1 < length (heap after_first_root)" by code_simp
  then have h2: "\<forall>n \<in> set [1]. n < length (heap after_first_root)" by simp
  have h3: "length (heap after_first_root) \<le> 2" by code_simp
  have r: "tarjan_all 2 [1] after_first_root =
     Some (Inr \<lparr>heap = [\<lparr>name = ''a.h'', links = [1], index = 0, lowlink = 0\<rparr>,
                       \<lparr>name = ''b.h'', links = [], index = 2, lowlink = 2\<rparr>],
                nodes = [0, 1], nodeStack = [], indexCount = 3, cyclesDetected = False,
                stdout = []\<rparr>)" by code_simp
  have i: "index (heap after_first_root ! 1) = 1" by code_simp
  from every_node_is_root [OF h1 h2 h3] h1 v h3 r i show ?thesis by auto
qed

text \<open>
  C6. The claim: an include directive after \<open>//\<close> on a line is removed before include
  scanning, also on a final line that has no line terminator. The code at such an input:
  the whole text of \<open>a.hpp\<close> is the line comment \<open>// #include "a.hpp"\<close> with nothing
  after it; \<open>stripComments\<close> returns the text unchanged, and the directive becomes an
  edge from \<open>a.hpp\<close> to itself.
\<close>

theorem final_line_comment_kept:
  "stripComments (''// '' @ include_directive ''a.hpp'') = ''// '' @ include_directive ''a.hpp''
   \<and> constructGraph [(''a.hpp'', Some (''// '' @ include_directive ''a.hpp''))] initial_state
       = Inr \<lparr>heap = [\<lparr>name = ''a.hpp'', links = [0], index = -1, lowlink = 0\<rparr>],
              nodes = [0], nodeStack = [], indexCount = 0, cyclesDetected = False,
              stdout = []\<rparr>"
  by code_simp

text \<open>
  C7. The claim: the filename extracted from a matched directive has only the letters
  \<open>a-z\<close> and \<open>A-Z\<close> before its extension. The code at the directive
  \<open>#include "my_defs.h"\<close>: the class \<open>[a-zA-z]\<close> of \<open>filenameRE\<close> also holds the six
  characters between \<open>Z\<close> and \<open>a\<close>, the underscore among them, and the extracted
  filename is \<open>my_defs.h\<close>.
\<close>

theorem filename_with_underscore_extracted:
  "findall_includeRE (include_directive ''my_defs.h'') = [include_directive ''my_defs.h'']
   \<and> search_filenameRE (include_directive ''my_defs.h'') = Some ''my_defs.h''
   \<and> CHR ''_'' \<in> set ''my_defs.h''"
  by code_simp

text \<open>
  C8. A filename that a scanned header includes and that is absent from the directory
  listing becomes a registered node, and that node has no outgoing links: whenever
  \<open>constructGraph\<close> completes on a listing in which a valid header's text has a matched
  directive with extracted filename \<open>t\<close>, and no entry of the listing is named \<open>t\<close>, the
  resulting registry has a node named \<open>t\<close> whose \<open>links\<close> list is empty.
\<close>

theorem absent_include_is_leaf_node:
  assumes "constructGraph target initial_state = Inr s"
    and "(filename, Some input) \<in> set target" and "isValidFile filename"
    and "inc \<in> set (findall_includeRE (stripComments input))"
    and "search_filenameRE inc = Some t"
    and "t \<notin> fst ` set target"
  shows "\<exists>a \<in> set (nodes s). name (heap s ! a) = t \<and> links (heap s ! a) = []"
proof -
  have "has_node t s"
    using registry_ok_initial assms(1-5) by (rule has_node_constructGraph_target)
  moreover have "leaf t initial_state" by (simp add: leaf_def initial_state_def)
  with registry_ok_initial have "leaf t s" using assms(6,1) by (rule leaf_constructGraph)
  ultimately show ?thesis by (auto simp: has_node_def leaf_def)
qed


theorem absent_include_is_leaf_node_witness:
  "constructGraph [(''a.h'', Some (include_directive ''gone.h''))] initial_state =
     Inr \<lparr>heap = [\<lparr>name = ''a.h'', links = [1], index = -1, lowlink = 0\<rparr>,
                 \<lparr>name = ''gone.h'', links = [], index = -1, lowlink = 0\<rparr>],
          nodes = [0, 1], nodeStack = [], indexCount = 0, cyclesDetected = False, stdout = []\<rparr>
   \<and> (\<exists>a \<in> set [0, 1::nat]. name ([\<lparr>name = ''a.h'', links = [1], index = -1, lowlink = 0\<rparr>,
                 \<lparr>name = ''gone.h'', links = [], index = -1, lowlink = 0\<rparr>] ! a) = ''gone.h''
         \<and> links ([\<lparr>name = ''a.h'', links = [1], index = -1, lowlink = 0\<rparr>,
                 \<lparr>name = ''gone.h'', links = [], index = -1, lowlink = 0\<rparr>] ! a) = [])"
proof -
  let ?target = "[(''a.h'', Some (include_directive ''gone.h''))]"
  let ?s = "\<lparr>heap = [\<lparr>name = ''a.h'', links = [1], index = -1, lowlink = 0\<rparr>,
                 \<lparr>name = ''gone.h'', links = [], index = -1, lowlink = 0\<rparr>],
          nodes = [0, 1], nodeStack = [], indexCount = 0, cyclesDetected = False, stdout = []\<rparr>"
  have h1: "constructGraph ?target initial_state = Inr ?s" by code_simp
  have h2: "(''a.h'', Some (include_directive ''gone.h'')) \<in> set ?target" by simp
  have h3: "isValidFile ''a.h''" by code_simp
  have h4: "include_directive ''gone.h'' \<in> set (findall_includeRE (stripComments (include_directive ''gone.h'')))"
    by code_simp
  have h5: "search_filenameRE (include_directive ''gone.h'') = Some ''gone.h''" by code_simp
  have h6: "''gone.h'' \<notin> fst ` set ?target" by simp
  from absent_include_is_leaf_node [OF h1 h2 h3 h4 h5 h6] h1 show ?thesis by simp
qed

text \<open>
  C9. Node identity is by filename. The empty registry satisfies \<open>registry_ok\<close>, and in
  every state that satisfies it: two registered nodes with the same name are the same
  object; looking a registered node's name up with \<open>inNodes\<close> returns that object;
  \<open>addLink\<close> keeps \<open>registry_ok\<close>, and the reference it appends to \<open>self.links\<close> is the
  object registered under the given filename; scanning a file keeps \<open>registry_ok\<close>; and
  so does \<open>constructGraph\<close> over any listing.
\<close>

theorem node_identity_by_name:
  "registry_ok initial_state \<and>
   (registry_ok s \<longrightarrow>
      (\<forall>a \<in> set (nodes s). \<forall>b \<in> set (nodes s).
          name (heap s ! a) = name (heap s ! b) \<longrightarrow> a = b) \<and>
      (\<forall>a \<in> set (nodes s). inNodes (name (heap s ! a)) s = Some a) \<and>
      registry_ok (addLink self n s) \<and>
      (self \<in> set (nodes s) \<longrightarrow>
         inNodes n (addLink self n s) = Some (last (links (heap (addLink self n s) ! self)))) \<and>
      (\<forall>s'. scanFile filename input s = Inr s' \<longrightarrow> registry_ok s') \<and>
      (\<forall>s'. constructGraph target s = Inr s' \<longrightarrow> registry_ok s'))"
  using registry_ok_initial registry_ok_same_name [of s] inNodes_registered [of s]
    registry_ok_addLink [of s self n] inNodes_addLink [of s self n]
    registry_ok_scanFile [of s filename input] registry_ok_constructGraph [of s target]
  by blast

theorem node_identity_by_name_witness:
  "registry_ok two_headers \<and> 0 \<in> set (nodes two_headers) \<and>
   scanFile ''b.h'' (include_directive ''a.h'') two_headers =
     Inr (two_headers\<lparr>heap := [\<lparr>name = ''a.h'', links = [1], index = -1, lowlink = 0\<rparr>,
              \<lparr>name = ''b.h'', links = [0], index = -1, lowlink = 0\<rparr>]\<rparr>) \<and>
   constructGraph [(''a.h'', Some (include_directive ''b.h''))] two_headers =
     Inr (two_headers\<lparr>heap := [\<lparr>name = ''a.h'', links = [1, 1], index = -1, lowlink = 0\<rparr>,
              \<lparr>name = ''b.h'', links = [], index = -1, lowlink = 0\<rparr>]\<rparr>) \<and>
   inNodes ''a.h'' two_headers = Some 0 \<and> inNodes ''b.h'' two_headers = Some 1 \<and>
   registry_ok (addLink 0 ''b.h'' two_headers) \<and>
   inNodes ''b.h'' (addLink 0 ''b.h'' two_headers) = Some 1 \<and>
   last (links (heap (addLink 0 ''b.h'' two_headers) ! 0)) = 1 \<and>
   registry_ok (two_headers\<lparr>heap := [\<lparr>name = ''a.h'', links = [1], index = -1, lowlink = 0\<rparr>,
              \<lparr>name = ''b.h'', links = [0], index = -1, lowlink = 0\<rparr>]\<rparr>) \<and>
   registry_ok (two_headers\<lparr>heap := [\<lparr>name = ''a.h'', links = [1, 1], index = -1, lowlink = 0\<rparr>,
              \<lparr>name = ''b.h'', links = [], index = -1, lowlink = 0\<rparr>]\<rparr>)"
proof -
  have h: "registry_ok two_headers" by code_simp
  have m: "0 \<in> set (nodes two_headers)" by code_simp
  have sc: "scanFile ''b.h'' (include_directive ''a.h'') two_headers =
     Inr (two_headers\<lparr>heap := [\<lparr>name = ''a.h'', links = [1], index = -1, lowlink = 0\<rparr>,
              \<lparr>name = ''b.h'', links = [0], index = -1, lowlink = 0\<rparr>]\<rparr>)" by code_simp
  have cg: "constructGraph [(''a.h'', Some (include_directive ''b.h''))] two_headers =
     Inr (two_headers\<lparr>heap := [\<lparr>name = ''a.h'', links = [1, 1], index = -1, lowlink = 0\<rparr>,
              \<lparr>name = ''b.h'', links = [], index = -1, lowlink = 0\<rparr>]\<rparr>)" by code_simp
  have e1: "inNodes ''a.h'' two_headers = Some 0" by code_simp
  have e2: "inNodes ''b.h'' two_headers = Some 1" by code_simp
  have e3: "last (links (heap (addLink 0 ''b.h'' two_headers) ! 0)) = 1" by code_simp
  from node_identity_by_name [of two_headers 0 "''b.h''" "''b.h''" "include_directive ''a.h''"
      "[(''a.h'', Some (include_directive ''b.h''))]"] h m sc cg e1 e2 e3
  show ?thesis by simp
qed

text \<open>
  C10. When a call of \<open>tarjan\<close> made by the loop of \<open>main\<close> returns, \<open>Node.nodeStack\<close> is
  empty, as it was when the call started; if the node was already visited, the call
  pushes it, changes nothing in its loop, pops the one-element list holding it, and
  prints nothing. Every node on the stack has an assigned index at every point:
  \<open>tarjan_inv\<close> holds in the state that \<open>constructGraph\<close> builds, it says that every node
  on the stack is allocated and has an index other than \<open>-1\<close>, and it is kept by the
  first four statements of \<open>tarjan\<close> on an allocated node (whose links are allocated
  nodes again), by an assignment to a lowlink, by the pops and the report, and by a
  whole call.
\<close>

theorem stack_discipline:
  "(constructGraph target initial_state = Inr g \<and> nodes g = seen @ n # rest \<and>
      tarjan_all k seen g = Some (Inr s) \<and> tarjan k n s = Some (Inr s') \<longrightarrow>
        nodeStack s = [] \<and> nodeStack s' = [] \<and>
        (index (heap s ! n) \<noteq> -1 \<longrightarrow>
           nodeStack (enter n s) = [n] \<and>
           visit_children (tarjan (k - 1)) n (links (heap (enter n s) ! n)) (enter n s)
             = Some (Inr (enter n s)) \<and>
           pop_cycle n (nodeStack (enter n s)) = Some ([n], []) \<and>
           finish n (enter n s) = Inr s' \<and>
           stdout s' = stdout s \<and> cyclesDetected s' = cyclesDetected s)) \<and>
   (constructGraph target initial_state = Inr g \<longrightarrow> tarjan_inv g) \<and>
   (tarjan_inv t \<longrightarrow> (\<forall>a \<in> set (nodeStack t). a < length (heap t) \<and> index (heap t ! a) \<noteq> -1)) \<and>
   (tarjan_inv t1 \<and> m1 < length (heap t1) \<longrightarrow>
      tarjan_inv (enter m1 t1) \<and> (\<forall>c \<in> set (links (heap t1 ! m1)). c < length (heap t1))) \<and>
   (tarjan_inv t2 \<longrightarrow> tarjan_inv (set_lowlink m2 v t2)) \<and>
   (tarjan_inv t3 \<and> finish m3 t3 = Inr t3' \<longrightarrow> tarjan_inv t3') \<and>
   (tarjan_inv t4 \<and> m4 < length (heap t4) \<and> tarjan j m4 t4 = Some (Inr t4') \<longrightarrow> tarjan_inv t4')"
proof (intro conjI impI)
  assume a: "constructGraph target initial_state = Inr g \<and> nodes g = seen @ n # rest \<and>
      tarjan_all k seen g = Some (Inr s) \<and> tarjan k n s = Some (Inr s')"
  then have g: "constructGraph target initial_state = Inr g"
    and ns: "nodes g = seen @ n # rest" and loop: "tarjan_all k seen g = Some (Inr s)"
    and ret: "tarjan k n s = Some (Inr s')" by simp_all
  have "set seen \<subseteq> set (nodes g)" using ns by auto
  with g have "top_inv s \<and> length (heap s) = length (heap g)"
    using loop by (rule main_loop_top_inv)
  then have top: "top_inv s" and len: "length (heap s) = length (heap g)" by simp_all
  have "n \<in> set (nodes g)" using ns by simp
  with constructGraph_top_inv(1) [OF g] len have n: "n < length (heap s)"
    by (simp add: registry_ok_def)
  show st: "nodeStack s = []" using top by (simp add: top_inv_def)
  show "nodeStack s' = []" using top_call [OF top n ret] by (simp add: top_inv_def)
  assume vis: "index (heap s ! n) \<noteq> -1"
  from ret obtain k' where k: "k = Suc k'" by (cases k) auto
  note R = revisit_call(1) [OF top n vis, of k'] revisit_call(2) [OF top n vis]
    revisit_call(3) [OF top n vis, of k']
  have s': "s' = reindexed n s" using R(3) ret unfolding k by simp
  show "nodeStack (enter n s) = [n]" using st by simp
  then show "pop_cycle n (nodeStack (enter n s)) = Some ([n], [])" by simp
  show "visit_children (tarjan (k - 1)) n (links (heap (enter n s) ! n)) (enter n s)
             = Some (Inr (enter n s))" using R(1) k by simp
  show "finish n (enter n s) = Inr s'" using R(2) s' by simp
  show "stdout s' = stdout s" "cyclesDetected s' = cyclesDetected s" using s' by simp_all
next
  assume "constructGraph target initial_state = Inr g"
  then have "top_inv g" by (rule constructGraph_top_inv(3))
  then show "tarjan_inv g" by (simp add: top_inv_def)
next
  assume "tarjan_inv t"
  then show "\<forall>a \<in> set (nodeStack t). a < length (heap t) \<and> index (heap t ! a) \<noteq> -1"
    by (simp add: tarjan_inv_def)
next
  assume a: "tarjan_inv t1 \<and> m1 < length (heap t1)"
  then show "tarjan_inv (enter m1 t1)" by (simp add: tarjan_inv_enter)
  from a show "\<forall>c \<in> set (links (heap t1 ! m1)). c < length (heap t1)"
    by (auto simp: tarjan_inv_def dest: graph_okD)
next
  assume "tarjan_inv t2"
  then show "tarjan_inv (set_lowlink m2 v t2)" by (rule tarjan_inv_set_lowlink)
next
  assume "tarjan_inv t3 \<and> finish m3 t3 = Inr t3'"
  then show "tarjan_inv t3'" by (auto intro: tarjan_inv_finish)
next
  assume a: "tarjan_inv t4 \<and> m4 < length (heap t4) \<and> tarjan j m4 t4 = Some (Inr t4')"
  then have "call_pre m4 t4" and "tarjan j m4 t4 = Some (Inr t4')" by (simp_all add: call_pre_def)
  then have "call_post m4 t4 t4'" by (rule tarjan_basic)
  then show "tarjan_inv t4'" by (rule call_postD(1))
qed

theorem stack_discipline_witness:
  "constructGraph [(''a.h'', Some (include_directive ''b.h'')), (''b.h'', Some [])] initial_state
     = Inr two_headers \<and>
   nodes two_headers = [0] @ 1 # [] \<and>
   tarjan_all 2 [0] two_headers = Some (Inr after_first_root) \<and>
   tarjan 2 1 after_first_root = Some (Inr (reindexed 1 after_first_root)) \<and>
   index (heap after_first_root ! 1) \<noteq> -1 \<and>
   nodeStack after_first_root = [] \<and> nodeStack (reindexed 1 after_first_root) = [] \<and>
   stdout (reindexed 1 after_first_root) = [] \<and>
   tarjan_inv two_headers \<and>
   tarjan_inv stack_example \<and> 1 < length (heap stack_example) \<and>
   nodeStack stack_example = [0] \<and> index (heap stack_example ! 0) = 0 \<and>
   tarjan_inv (enter 1 stack_example) \<and>
   tarjan_inv (set_lowlink 0 0 stack_example) \<and>
   finish 0 stack_example = Inr (stack_example\<lparr>nodeStack := []\<rparr>) \<and>
   tarjan_inv (stack_example\<lparr>nodeStack := []\<rparr>) \<and>
   tarjan 1 1 stack_example
     = Some (Inr (stack_example\<lparr>heap := [\<lparr>name = ''a.h'', links = [1], index = 0, lowlink = 0\<rparr>,
              \<lparr>name = ''b.h'', links = [], index = 1, lowlink = 1\<rparr>], indexCount := 2\<rparr>)) \<and>
   tarjan_inv (stack_example\<lparr>heap := [\<lparr>name = ''a.h'', links = [1], index = 0, lowlink = 0\<rparr>,
              \<lparr>name = ''b.h'', links = [], index = 1, lowlink = 1\<rparr>], indexCount := 2\<rparr>)"
proof -
  have c: "constructGraph [(''a.h'', Some (include_directive ''b.h'')), (''b.h'', Some [])]
             initial_state = Inr two_headers" by code_simp
  have n: "nodes two_headers = [0] @ 1 # []" by code_simp
  have l: "tarjan_all 2 [0] two_headers = Some (Inr after_first_root)" by code_simp
  have r: "tarjan 2 1 after_first_root = Some (Inr (reindexed 1 after_first_root))" by code_simp
  have v: "index (heap after_first_root ! 1) \<noteq> -1" by code_simp
  have i: "tarjan_inv stack_example" by code_simp
  have m: "1 < length (heap stack_example)" by code_simp
  have s: "nodeStack stack_example = [0]" "index (heap stack_example ! 0) = 0" by code_simp+
  have f: "finish 0 stack_example = Inr (stack_example\<lparr>nodeStack := []\<rparr>)" by code_simp
  have t: "tarjan 1 1 stack_example
     = Some (Inr (stack_example\<lparr>heap := [\<lparr>name = ''a.h'', links = [1], index = 0, lowlink = 0\<rparr>,
              \<lparr>name = ''b.h'', links = [], index = 1, lowlink = 1\<rparr>], indexCount := 2\<rparr>))"
    by code_simp
  have o: "stdout (reindexed 1 after_first_root) = []" by code_simp
  from stack_discipline [of "[(''a.h'', Some (include_directive ''b.h'')), (''b.h'', Some [])]"
      two_headers "[0]" 1 "[]" 2 after_first_root "reindexed 1 after_first_root"
      stack_example stack_example 1 stack_example 0 0 stack_example 0
      "stack_example\<lparr>nodeStack := []\<rparr>" stack_example 1 1
      "stack_example\<lparr>heap := [\<lparr>name = ''a.h'', links = [1], index = 0, lowlink = 0\<rparr>,
              \<lparr>name = ''b.h'', links = [], index = 1, lowlink = 1\<rparr>], indexCount := 2\<rparr>"]
    c n l r v i m s f t o
  show ?thesis by simp
qed

end
